theory Spec2Isabelle
  imports Complex_Main "HOL-Library.Word" "HOL-Library.Multiset"
begin

unbundle bit_operations_syntax

section \<open>Data model\<close>

text \<open>
  The package \<open>advanced\<close> hides a byte payload in the Red channel of an 8-bit RGBA raster.
  Go's \<open>byte\<close> is an 8-bit word, \<open>uint64\<close> a 64-bit word. Go's \<open>int\<close> is taken to be the
  64-bit \<open>int\<close> of the usual platforms; lengths and indices of slices that exist in
  memory are natural numbers here.
\<close>

type_synonym byte = "8 word"

type_synonym uint64 = "64 word"

text \<open>
  A \<open>float64\<close> is a finite real, an infinity or a NaN. The arithmetic of the cost map only
  ever produces finite values; the comparison \<open><\<close> of Go is \<open>f64_less\<close>.
\<close>

datatype float64 = Finite real | PosInf | NegInf | NaN

fun f64_less :: "float64 \<Rightarrow> float64 \<Rightarrow> bool" where
  "f64_less (Finite a) (Finite b) = (a < b)"
| "f64_less (Finite a) PosInf = True"
| "f64_less NegInf (Finite b) = True"
| "f64_less NegInf PosInf = True"
| "f64_less _ _ = False"

text \<open>\<open>math.MaxFloat64\<close>, the largest finite \<open>float64\<close>: \<open>(2 - 2^-52) * 2^1023\<close>.\<close>

definition MaxFloat64 :: real where
  "MaxFloat64 = (2 ^ 53 - 1) * 2 ^ 971"

text \<open>
  \<open>crypto/rand.Read\<close> on a one-byte buffer either fails or delivers a byte. The random
  source is the stream of the outcomes of the successive calls; a call consumes the head.
\<close>

datatype rand_result = RandErr | RandByte byte

type_synonym rand_source = "nat \<Rightarrow> rand_result"

definition rand_Read :: "rand_source \<Rightarrow> rand_result \<times> rand_source" where
  "rand_Read rs = (rs 0, \<lambda>n. rs (Suc n))"

text \<open>
  The outcomes of the package's functions other than a result: the errors that
  \<open>AdvancedEncode\<close> and \<open>AdvancedDecode\<close> return, and the run-time panic of Go (an index
  out of range, a slice too large to make).
\<close>

datatype error =
    CarrierDecodeError
  | PayloadReadError
  | CapacityExceeded
  | UnsupportedFormat
  | HeaderTooSmall
  | CorruptHeader
  | Panic

text \<open>
  The largest size in bytes of one allocation that Go's run-time system accepts on a
  64-bit platform; \<open>make\<close> panics beyond it.
\<close>

definition maxAlloc :: nat where
  "maxAlloc = 2 ^ 48"

text \<open>A loop over a list of indices whose body may fail: the first failure ends the loop.\<close>

fun for_each :: "'i list \<Rightarrow> ('i \<Rightarrow> 's \<Rightarrow> error + 's) \<Rightarrow> 's \<Rightarrow> error + 's" where
  "for_each [] body s = Inr s"
| "for_each (i # rest) body s =
     (case body i s of Inl e \<Rightarrow> Inl e | Inr s' \<Rightarrow> for_each rest body s')"

text \<open>
  \<open>color.RGBA\<close> and \<open>image.RGBA\<close>. The raster that \<open>getImageAsRGBA\<close> returns has its origin
  at \<open>(0,0)\<close> (the PNG and JPEG decoders produce such bounds); \<open>Pix\<close> holds one colour
  per pixel in row-major order. \<open>RGBAAt\<close> returns the zero colour outside the bounds.
\<close>

record RGBA =
  Red :: byte
  Green :: byte
  Blue :: byte
  Alpha :: byte

record Image =
  Dx :: nat
  Dy :: nat
  Pix :: "RGBA list"

definition RGBAAt :: "Image \<Rightarrow> int \<Rightarrow> int \<Rightarrow> RGBA" where
  "RGBAAt img x y =
     (if 0 \<le> x \<and> x < int (Dx img) \<and> 0 \<le> y \<and> y < int (Dy img)
      then Pix img ! nat (y * int (Dx img) + x)
      else \<lparr>Red = 0, Green = 0, Blue = 0, Alpha = 0\<rparr>)"

section \<open>The cost map (cost.go)\<close>

record CostMap =
  costs :: "float64 list"
  width :: int
  height :: int

definition NewCostMap :: "int \<Rightarrow> int \<Rightarrow> CostMap" where
  "NewCostMap w h = \<lparr>costs = replicate (nat (w * h)) (Finite 0), width = w, height = h\<rparr>"

definition CostMap_Get :: "CostMap \<Rightarrow> int \<Rightarrow> int \<Rightarrow> error + float64" where
  "CostMap_Get c x y =
     (let i = y * width c + x in
      if 0 \<le> i \<and> i < int (length (costs c)) then Inr (costs c ! nat i) else Inl Panic)"

definition CostMap_Set :: "CostMap \<Rightarrow> int \<Rightarrow> int \<Rightarrow> float64 \<Rightarrow> error + CostMap" where
  "CostMap_Set c x y cost =
     (let i = y * width c + x in
      if 0 \<le> i \<and> i < int (length (costs c))
      then Inr (c\<lparr>costs := (costs c)[nat i := cost]\<rparr>) else Inl Panic)"

definition getChannelValue :: "Image \<Rightarrow> int \<Rightarrow> int \<Rightarrow> int \<Rightarrow> real" where
  "getChannelValue img x y channel =
     (let c = RGBAAt img x y in
      if channel = 0 then real (unat (Red c))
      else if channel = 1 then real (unat (Green c))
      else if channel = 2 then real (unat (Blue c))
      else real (unat (Green c)))"

definition sobelX :: "real list list" where
  "sobelX = [[-1, 0, 1], [-2, 0, 2], [-1, 0, 1]]"

definition sobelY :: "real list list" where
  "sobelY = [[-1, -2, -1], [0, 0, 0], [1, 2, 1]]"

text \<open>
  Modelled from the spec: the constant \<open>epsilon\<close>, which \<open>CalculateCosts\<close> uses and whose
  declaration is not among the sources; the spec gives \<open>epsilon = 1e-6\<close>.
\<close>

definition epsilon :: real where
  "epsilon = 1 / 10 ^ 6"

text \<open>
  Floating-point arithmetic. Each \<open>float64\<close> operation of the source (\<open>+\<close>, \<open>*\<close>, \<open>/\<close>,
  \<open>math.Sqrt\<close>, the conversion of a constant) is the exact operation on the reals followed
  by the rounding \<open>rnd\<close> to a \<open>float64\<close>; \<open>rnd\<close> is a parameter of the model. No operation
  of \<open>CalculateCosts\<close> overflows or yields a NaN: the gradients are bounded by
  \<open>4 * 255\<close> and the divisor is at least \<open>epsilon\<close>.

  One step of the two inner loops of \<open>CalculateCosts\<close>, at the offsets \<open>i\<close> (added to
  \<open>x\<close>) and \<open>j\<close> (added to \<open>y\<close>), on the pair \<open>(gx, gy)\<close>:
\<close>

definition sobel_step ::
  "(real \<Rightarrow> real) \<Rightarrow> Image \<Rightarrow> int \<Rightarrow> int \<Rightarrow> int \<Rightarrow> int \<Rightarrow> int \<Rightarrow> real \<times> real \<Rightarrow> real \<times> real" where
  "sobel_step rnd img x y channel i j g =
     (let pixel = getChannelValue img (x + i) (y + j) channel;
          gx = rnd (fst g + rnd (pixel * sobelX ! nat (i + 1) ! nat (j + 1)));
          gy = rnd (snd g + rnd (pixel * sobelY ! nat (i + 1) ! nat (j + 1)))
      in (gx, gy))"

definition sobel_gradients ::
  "(real \<Rightarrow> real) \<Rightarrow> Image \<Rightarrow> int \<Rightarrow> int \<Rightarrow> int \<Rightarrow> real \<times> real" where
  "sobel_gradients rnd img x y channel =
     fold (\<lambda>i g. fold (\<lambda>j. sobel_step rnd img x y channel i j) [-1, 0, 1] g) [-1, 0, 1] (0, 0)"

text \<open>The cost that the body of the two outer loops stores at \<open>(x, y)\<close>.\<close>

definition pixel_cost :: "(real \<Rightarrow> real) \<Rightarrow> Image \<Rightarrow> int \<Rightarrow> int \<Rightarrow> int \<Rightarrow> real" where
  "pixel_cost rnd img x y channel =
     (let g = sobel_gradients rnd img x y channel;
          gx = fst g;
          gy = snd g;
          gradientMagnitude = rnd (sqrt (rnd (rnd (gx * gx) + rnd (gy * gy))));
          cost = rnd (1 / rnd (gradientMagnitude + rnd epsilon))
      in cost)"

text \<open>\<open>costMap.Set(a, y, MaxFloat64); costMap.Set(b, y', MaxFloat64)\<close>, in this order.\<close>

definition set_border :: "int \<Rightarrow> int \<Rightarrow> int \<Rightarrow> int \<Rightarrow> CostMap \<Rightarrow> error + CostMap" where
  "set_border x y x' y' c =
     (case CostMap_Set c x y (Finite MaxFloat64) of
        Inl e \<Rightarrow> Inl e
      | Inr c' \<Rightarrow> CostMap_Set c' x' y' (Finite MaxFloat64))"

definition CalculateCosts :: "(real \<Rightarrow> real) \<Rightarrow> Image \<Rightarrow> int \<Rightarrow> error + CostMap" where
  "CalculateCosts rnd img channel =
     (let w = int (Dx img);
          h = int (Dy img);
          costMap = NewCostMap w h
      in case for_each [1..h - 2]
               (\<lambda>y. for_each [1..w - 2]
                  (\<lambda>x c. CostMap_Set c x y (Finite (pixel_cost rnd img x y channel))))
               costMap of
           Inl e \<Rightarrow> Inl e
         | Inr c1 \<Rightarrow>
             (case for_each [0..h - 1] (\<lambda>y. set_border 0 y (w - 1) y) c1 of
                Inl e \<Rightarrow> Inl e
              | Inr c2 \<Rightarrow> for_each [0..w - 1] (\<lambda>x. set_border x 0 x (h - 1)) c2))"

section \<open>LSB matching (lsb\_matching.go)\<close>

text \<open>
  \<open>LSBMatchingEmbed(pixel, bit, cost)\<close> returns the modified pixel and the cost of the
  modification. The source is read only when the least significant bit differs from
  \<open>bit\<close>; byte arithmetic wraps, as Go's does.
\<close>

definition LSBMatchingEmbed ::
  "byte \<Rightarrow> byte \<Rightarrow> float64 \<Rightarrow> rand_source \<Rightarrow> (byte \<times> float64) \<times> rand_source" where
  "LSBMatchingEmbed pixel b cost rs =
     (let currentLSB = pixel AND 1 in
      if currentLSB = b then ((pixel, Finite 0), rs)
      else
        (case rand_Read rs of
           (RandErr, rs') \<Rightarrow>
             (if pixel = 255 then ((pixel - 1, cost), rs') else ((pixel + 1, cost), rs'))
         | (RandByte r, rs') \<Rightarrow>
             (let addOne = (r AND 1 = 1) in
              if addOne
              then (if pixel = 255 then ((pixel - 1, cost), rs') else ((pixel + 1, cost), rs'))
              else (if pixel = 0 then ((pixel + 1, cost), rs') else ((pixel - 1, cost), rs')))))"

text \<open>
  \<open>sort.Slice\<close> belongs to Go's library, not to the package: it is a parameter of the
  model, called with the closure \<open>less\<close> and the slice. Its documentation promises a
  permutation of the slice that is sorted as \<open>less\<close> says, and no stability.
\<close>

record pixelCost =
  pos :: nat
  cost :: float64

type_synonym sort_Slice = "(pixelCost \<Rightarrow> pixelCost \<Rightarrow> bool) \<Rightarrow> pixelCost list \<Rightarrow> pixelCost list"

text \<open>The closure of both calls: \<open>allPixelCosts[i].cost < allPixelCosts[j].cost\<close>.\<close>

definition cost_less :: "pixelCost \<Rightarrow> pixelCost \<Rightarrow> bool" where
  "cost_less p q = f64_less (cost p) (cost q)"

text \<open>
  A loop that fills a fresh slice, one element per index, with a body that may panic.
\<close>

fun collect :: "('i \<Rightarrow> error + 'a) \<Rightarrow> 'i list \<Rightarrow> error + 'a list" where
  "collect f [] = Inr []"
| "collect f (i # rest) =
     (case f i of
        Inl e \<Rightarrow> Inl e
      | Inr v \<Rightarrow> (case collect f rest of Inl e \<Rightarrow> Inl e | Inr vs \<Rightarrow> Inr (v # vs)))"

text \<open>
  Steps 1 and 2 of \<open>GetOptimalChanges\<close>, which are steps 4 and 5 of \<open>AdvancedDecode\<close>
  word for word: the slice of all \<open>n\<close> positions with their costs, then sorted by cost.
  \<open>costs.costs[i]\<close> panics beyond the cost map.
\<close>

definition all_pixel_costs :: "nat \<Rightarrow> CostMap \<Rightarrow> error + pixelCost list" where
  "all_pixel_costs n cm =
     collect (\<lambda>i. if i < length (costs cm) then Inr \<lparr>pos = i, cost = costs cm ! i\<rparr>
                   else Inl Panic) [0..<n]"

definition sorted_pixel_costs :: "sort_Slice \<Rightarrow> nat \<Rightarrow> CostMap \<Rightarrow> error + pixelCost list" where
  "sorted_pixel_costs srt n cm =
     (case all_pixel_costs n cm of
        Inl e \<Rightarrow> Inl e
      | Inr allPixelCosts \<Rightarrow> Inr (srt cost_less allPixelCosts))"

text \<open>
  Byte slices live in a store: a slice is the index of its array in the list of all
  arrays, \<open>make\<close> appends a fresh array of zeros, \<open>copy\<close> overwrites the head of the
  destination, an assignment to an element updates the array in place.
\<close>

type_synonym heap = "byte list list"

definition heap_make :: "heap \<Rightarrow> nat \<Rightarrow> nat \<times> heap" where
  "heap_make h n = (length h, h @ [replicate n 0])"

definition heap_copy :: "heap \<Rightarrow> nat \<Rightarrow> nat \<Rightarrow> heap" where
  "heap_copy h dst src =
     (let n = min (length (h ! dst)) (length (h ! src))
      in h[dst := take n (h ! src) @ drop n (h ! dst)])"

text \<open>
  One iteration of the embedding loop of \<open>GetOptimalChanges\<close>, on the store and the
  random source; an index out of range panics and leaves both as they are.
\<close>

definition embed_bit ::
  "nat \<Rightarrow> nat \<Rightarrow> byte list \<Rightarrow> CostMap \<Rightarrow> pixelCost list \<Rightarrow> nat
     \<Rightarrow> heap \<times> rand_source \<Rightarrow> error option \<times> heap \<times> rand_source" where
  "embed_bit img result message cm allPixelCosts bitIndex st =
     (let h = fst st; rs = snd st in
      if length allPixelCosts \<le> bitIndex then (Some Panic, h, rs)
      else
        let pixelPos = pos (allPixelCosts ! bitIndex);
            byteIndex = bitIndex div 8;
            bitOffset = bitIndex mod 8
        in if length message \<le> byteIndex then (Some Panic, h, rs)
           else
             let bitToEmbed = drop_bit (7 - bitOffset) (message ! byteIndex) AND 1
             in if length (h ! img) \<le> pixelPos \<or> length (costs cm) \<le> pixelPos
                     \<or> length (h ! result) \<le> pixelPos
                then (Some Panic, h, rs)
                else
                  let r = LSBMatchingEmbed (h ! img ! pixelPos) bitToEmbed (costs cm ! pixelPos) rs
                  in (None, h[result := (h ! result)[pixelPos := fst (fst r)]], snd r))"

fun embed_loop ::
  "(nat \<Rightarrow> heap \<times> rand_source \<Rightarrow> error option \<times> heap \<times> rand_source) \<Rightarrow> nat list
     \<Rightarrow> heap \<times> rand_source \<Rightarrow> error option \<times> heap \<times> rand_source" where
  "embed_loop body [] st = (None, fst st, snd st)"
| "embed_loop body (k # ks) st =
     (case body k st of
        (Some e, h', rs') \<Rightarrow> (Some e, h', rs')
      | (None, h', rs') \<Rightarrow> embed_loop body ks (h', rs'))"

text \<open>
  \<open>GetOptimalChanges(img, message, costs)\<close> on the store \<open>h\<close>, where \<open>img\<close> is the slice
  passed in: the outcome is the slice returned (or a panic), the store and the random
  source afterwards.
\<close>

definition GetOptimalChanges ::
  "sort_Slice \<Rightarrow> heap \<Rightarrow> nat \<Rightarrow> byte list \<Rightarrow> CostMap \<Rightarrow> rand_source
     \<Rightarrow> (error + nat) \<times> heap \<times> rand_source" where
  "GetOptimalChanges srt h img message cm rs =
     (let made = heap_make h (length (h ! img));
          result = fst made;
          h1 = heap_copy (snd made) result img;
          messageLenBits = length message * 8
      in if messageLenBits > length (h1 ! img) then (Inr result, h1, rs)
         else
           (case sorted_pixel_costs srt (length (h1 ! img)) cm of
              Inl e \<Rightarrow> (Inl e, h1, rs)
            | Inr allPixelCosts \<Rightarrow>
                (case embed_loop (embed_bit img result message cm allPixelCosts)
                        [0..<messageLenBits] (h1, rs) of
                   (Some e, h2, rs') \<Rightarrow> (Inl e, h2, rs')
                 | (None, h2, rs') \<Rightarrow> (Inr result, h2, rs'))))"

section \<open>Framing, encoding and decoding (advanced.go)\<close>

definition headerSize :: nat where
  "headerSize = 8"

text \<open>\<open>binary.BigEndian.PutUint64\<close> and \<open>binary.BigEndian.Uint64\<close>, on eight bytes.\<close>

definition PutUint64 :: "uint64 \<Rightarrow> byte list" where
  "PutUint64 v =
     [ucast (drop_bit 56 v), ucast (drop_bit 48 v), ucast (drop_bit 40 v), ucast (drop_bit 32 v),
      ucast (drop_bit 24 v), ucast (drop_bit 16 v), ucast (drop_bit 8 v), ucast v]"

definition Uint64 :: "byte list \<Rightarrow> uint64" where
  "Uint64 b =
     ucast (b ! 7) OR push_bit 8 (ucast (b ! 6)) OR push_bit 16 (ucast (b ! 5))
       OR push_bit 24 (ucast (b ! 4)) OR push_bit 32 (ucast (b ! 3))
       OR push_bit 40 (ucast (b ! 2)) OR push_bit 48 (ucast (b ! 1))
       OR push_bit 56 (ucast (b ! 0))"

text \<open>
  The pixels in the order of the two nested loops (\<open>y\<close> outside, \<open>x\<close> inside) that fill
  \<open>pixels\<close> and \<open>result_img\<close>; \<open>idx\<close> is the place in this list.
\<close>

definition raster_coords :: "Image \<Rightarrow> (int \<times> int) list" where
  "raster_coords img =
     concat (map (\<lambda>y. map (\<lambda>x. (int x, int y)) [0..<Dx img]) [0..<Dy img])"

definition red_pixels :: "Image \<Rightarrow> byte list" where
  "red_pixels img = map (\<lambda>(x, y). Red (RGBAAt img x y)) (raster_coords img)"

text \<open>
  Step 7 of \<open>AdvancedEncode\<close>: the colour of the carrier with the modified Red;
  \<open>modifiedPixels[idx]\<close> panics beyond the slice.
\<close>

definition result_pixels :: "Image \<Rightarrow> byte list \<Rightarrow> error + RGBA list" where
  "result_pixels img modifiedPixels =
     collect (\<lambda>(idx, (x, y)).
                if idx < length modifiedPixels
                then Inr ((RGBAAt img x y)\<lparr>Red := modifiedPixels ! idx\<rparr>)
                else Inl Panic)
       (zip [0..<length (raster_coords img)] (raster_coords img))"

text \<open>
  Step 8, \<open>png.Encode\<close> on an \<open>*image.RGBA\<close>, whose colours are premultiplied by alpha. An
  opaque raster (\<open>Opaque\<close>: every alpha is 255) is written with colour type 2, the samples
  R, G, B of each pixel as they are. Any other raster is written with colour type 6, the
  samples R, G, B, A not premultiplied: a pixel of alpha 0 as four zeros, one of alpha 255
  as it is, and any other with each colour divided by alpha, in \<open>uint32\<close> and cut to a
  byte. The writer is taken not to fail.
\<close>

datatype PNG =
    TrueColor nat nat "(byte \<times> byte \<times> byte) list"
  | TrueColorAlpha nat nat "(byte \<times> byte \<times> byte \<times> byte) list"

definition Opaque :: "Image \<Rightarrow> bool" where
  "Opaque img = list_all (\<lambda>c. Alpha c = 255) (Pix img)"

definition unpremultiply :: "byte \<Rightarrow> byte \<Rightarrow> byte" where
  "unpremultiply s a =
     ucast (drop_bit 8 ((ucast s :: 32 word) * (0x101 * 0xffff) div (ucast a * 0x101)))"

definition nrgba :: "RGBA \<Rightarrow> byte \<times> byte \<times> byte \<times> byte" where
  "nrgba c =
     (if Alpha c = 0 then (0, 0, 0, 0)
      else if Alpha c = 255 then (Red c, Green c, Blue c, Alpha c)
      else (unpremultiply (Red c) (Alpha c), unpremultiply (Green c) (Alpha c),
            unpremultiply (Blue c) (Alpha c), Alpha c))"

definition png_Encode :: "Image \<Rightarrow> PNG" where
  "png_Encode m =
     (if Opaque m then TrueColor (Dx m) (Dy m) (map (\<lambda>c. (Red c, Green c, Blue c)) (Pix m))
      else TrueColorAlpha (Dx m) (Dy m) (map nrgba (Pix m)))"

text \<open>
  \<open>AdvancedEncode\<close>. The carrier is what \<open>getImageAsRGBA\<close> returns: the raster and the name
  of its format, or nothing when the image cannot be parsed; the payload is what
  \<open>ioutil.ReadAll\<close> returns, or nothing when reading fails. The result is the PNG
  written. The slices \<open>pixels\<close> and \<open>modifiedPixels\<close> live in a store of the call.
\<close>

definition AdvancedEncode ::
  "(real \<Rightarrow> real) \<Rightarrow> sort_Slice \<Rightarrow> (Image \<times> string) option \<Rightarrow> byte list option \<Rightarrow> rand_source
     \<Rightarrow> error + PNG" where
  "AdvancedEncode rnd srt carrier data rs =
     (case carrier of
        None \<Rightarrow> Inl CarrierDecodeError
      | Some (img, format) \<Rightarrow>
     (case data of
        None \<Rightarrow> Inl PayloadReadError
      | Some dataBytes \<Rightarrow>
     (case CalculateCosts rnd img 1 of
        Inl e \<Rightarrow> Inl e
      | Inr cm \<Rightarrow>
          let header = PutUint64 (of_nat (length dataBytes));
              fullData = header @ dataBytes;
              capacity = Dx img * Dy img
          in if length fullData * 8 > capacity then Inl CapacityExceeded
             else
               let pixels = red_pixels img
               in (case GetOptimalChanges srt [pixels] 0 fullData cm rs of
                     (Inl e, h, rs') \<Rightarrow> Inl e
                   | (Inr modifiedPixels, h, rs') \<Rightarrow>
                       (case result_pixels img (h ! modifiedPixels) of
                          Inl e \<Rightarrow> Inl e
                        | Inr pix \<Rightarrow>
                            if format = ''png'' \<or> format = ''jpeg''
                            then Inr (png_Encode \<lparr>Dx = Dx img, Dy = Dy img, Pix = pix\<rparr>)
                            else Inl UnsupportedFormat)))))"

text \<open>
  \<open>make([]byte, n)\<close> for a length that comes from the image: the run-time system panics
  beyond \<open>maxAlloc\<close>.
\<close>

definition make_bytes :: "nat \<Rightarrow> error + byte list" where
  "make_bytes n = (if n \<le> maxAlloc then Inr (replicate n 0) else Inl Panic)"

text \<open>Steps 6 and 9: \<open>pixels[allPixelCosts[i].pos] & 1\<close>.\<close>

definition lsb_at :: "byte list \<Rightarrow> pixelCost list \<Rightarrow> nat \<Rightarrow> error + byte" where
  "lsb_at pixels allPixelCosts i =
     (if i < length allPixelCosts
      then (let pixelPos = pos (allPixelCosts ! i)
            in if pixelPos < length pixels then Inr (pixels ! pixelPos AND 1) else Inl Panic)
      else Inl Panic)"

text \<open>
  Steps 7 and 10: byte \<open>i\<close> of the bits, most significant bit first; the loops over
  \<open>n\<close> bytes read the bits up to \<open>8 n\<close> and panic when there are fewer.
\<close>

definition byte_of_bits :: "byte list \<Rightarrow> nat \<Rightarrow> byte" where
  "byte_of_bits bits i =
     fold (\<lambda>j acc. if bits ! (i * 8 + j) = 1 then acc OR push_bit (7 - j) 1 else acc) [0..<8] 0"

definition bits_to_bytes :: "byte list \<Rightarrow> nat \<Rightarrow> error + byte list" where
  "bits_to_bytes bits n =
     (if length bits < n * 8 then Inl Panic else Inr (map (byte_of_bits bits) [0..<n]))"

text \<open>
  \<open>AdvancedDecode\<close>, on the raster that \<open>getImageAsRGBA\<close> returns; the result is the data
  handed to the writer. The arithmetic on the message length is that of \<open>uint64\<close>.
\<close>

definition AdvancedDecode ::
  "(real \<Rightarrow> real) \<Rightarrow> sort_Slice \<Rightarrow> (Image \<times> string) option \<Rightarrow> error + byte list" where
  "AdvancedDecode rnd srt carrier =
     (case carrier of
        None \<Rightarrow> Inl CarrierDecodeError
      | Some (img, format) \<Rightarrow>
     (case CalculateCosts rnd img 1 of
        Inl e \<Rightarrow> Inl e
      | Inr cm \<Rightarrow>
          let capacity = Dx img * Dy img;
              pixels = red_pixels img
          in (case sorted_pixel_costs srt capacity cm of
                Inl e \<Rightarrow> Inl e
              | Inr allPixelCosts \<Rightarrow>
                  if capacity < headerSize * 8 then Inl HeaderTooSmall
                  else
                    (case collect (lsb_at pixels allPixelCosts) [0..<headerSize * 8] of
                       Inl e \<Rightarrow> Inl e
                     | Inr headerBits \<Rightarrow>
                    (case bits_to_bytes headerBits headerSize of
                       Inl e \<Rightarrow> Inl e
                     | Inr header \<Rightarrow>
                         let messageLength = Uint64 header;
                             totalHeaderBits = (of_nat (headerSize * 8) :: uint64);
                             totalDataBits = messageLength * 8;
                             totalBits = totalHeaderBits + totalDataBits
                         in if messageLength = 0 \<or> totalBits > of_nat capacity
                            then Inl CorruptHeader
                            else
                              (case make_bytes (unat totalDataBits) of
                                 Inl e \<Rightarrow> Inl e
                               | Inr zeros \<Rightarrow>
                              (case collect (\<lambda>i. lsb_at pixels allPixelCosts
                                                   (i + unat totalHeaderBits))
                                      [0..<unat totalDataBits] of
                                 Inl e \<Rightarrow> Inl e
                               | Inr dataBits \<Rightarrow>
                              (case make_bytes (unat messageLength) of
                                 Inl e \<Rightarrow> Inl e
                               | Inr zeros' \<Rightarrow>
                                   bits_to_bytes dataBits (unat messageLength)))))))))"

text \<open>
  \<open>getImageAsRGBA\<close> on a PNG of these two colour types. \<open>image.Decode\<close> delivers colour
  type 2 as an \<open>*image.RGBA\<close> of alpha 255, which \<open>draw.Draw\<close> copies, and colour type 6 as
  an \<open>*image.NRGBA\<close>, which \<open>draw.Draw\<close> premultiplies by alpha, in \<open>uint32\<close> and cut to a
  byte.
\<close>

definition premultiply :: "byte \<Rightarrow> byte \<Rightarrow> byte" where
  "premultiply s a = ucast (drop_bit 8 ((ucast s :: 32 word) * (ucast a * 0x101) div 0xff))"

definition rgba :: "byte \<times> byte \<times> byte \<times> byte \<Rightarrow> RGBA" where
  "rgba s =
     (case s of (r, g, b, a) \<Rightarrow>
        \<lparr>Red = premultiply r a, Green = premultiply g a, Blue = premultiply b a,
         Alpha = ucast (drop_bit 8 ((ucast a :: 32 word) * 0x101))\<rparr>)"

definition getImageAsRGBA :: "PNG \<Rightarrow> (Image \<times> string) option" where
  "getImageAsRGBA f =
     (case f of
        TrueColor w h samples \<Rightarrow>
          Some (\<lparr>Dx = w, Dy = h,
                 Pix = map (\<lambda>(r, g, b). \<lparr>Red = r, Green = g, Blue = b, Alpha = 255\<rparr>) samples\<rparr>,
                ''png'')
      | TrueColorAlpha w h samples \<Rightarrow>
          Some (\<lparr>Dx = w, Dy = h, Pix = map rgba samples\<rparr>, ''png''))"

text \<open>\<open>AdvancedDecode\<close> on the PNG that \<open>AdvancedEncode\<close> writes.\<close>

definition decode_encoded ::
  "(real \<Rightarrow> real) \<Rightarrow> sort_Slice \<Rightarrow> (Image \<times> string) option \<Rightarrow> byte list option \<Rightarrow> rand_source
     \<Rightarrow> error + byte list" where
  "decode_encoded rnd srt carrier data rs =
     (case AdvancedEncode rnd srt carrier data rs of
        Inl e \<Rightarrow> Inl e
      | Inr stego \<Rightarrow> AdvancedDecode rnd srt (getImageAsRGBA stego))"

section \<open>Vocabulary of the statements\<close>

text \<open>
  The cost that a cost map of width \<open>w\<close> holds for the pixel \<open>(x, y)\<close>, which \<open>Get\<close> returns
  when the pixel lies in the map; a cost map of the dimensions \<open>w\<close> and \<open>h\<close>; a pixel of
  a \<open>w \<times> h\<close> raster; its border and its interior.
\<close>

definition cost_at :: "CostMap \<Rightarrow> int \<Rightarrow> int \<Rightarrow> float64" where
  "cost_at c x y = costs c ! nat (y * width c + x)"

definition cm_dims :: "int \<Rightarrow> int \<Rightarrow> CostMap \<Rightarrow> bool" where
  "cm_dims w h c = (width c = w \<and> height c = h \<and> int (length (costs c)) = w * h)"

definition in_raster :: "int \<Rightarrow> int \<Rightarrow> int \<Rightarrow> int \<Rightarrow> bool" where
  "in_raster w h x y = (0 \<le> x \<and> x < w \<and> 0 \<le> y \<and> y < h)"

definition on_border :: "int \<Rightarrow> int \<Rightarrow> int \<Rightarrow> int \<Rightarrow> bool" where
  "on_border w h x y = (x = 0 \<or> x = w - 1 \<or> y = 0 \<or> y = h - 1)"

definition interior :: "int \<Rightarrow> int \<Rightarrow> int \<Rightarrow> int \<Rightarrow> bool" where
  "interior w h x y = (1 \<le> x \<and> x < w - 1 \<and> 1 \<le> y \<and> y < h - 1)"

text \<open>
  A raster as the decoders deliver it: positive dimensions, one colour per pixel, and
  its four bytes per pixel within what one slice can hold.
\<close>

definition wf_image :: "Image \<Rightarrow> bool" where
  "wf_image img =
     (1 \<le> Dx img \<and> 1 \<le> Dy img \<and> length (Pix img) = Dx img * Dy img
      \<and> 4 * (Dx img * Dy img) \<le> maxAlloc)"

text \<open>The cost that \<open>Get(x, y)\<close> reads from the result of \<open>CalculateCosts\<close>.\<close>

definition Get_of :: "error + CostMap \<Rightarrow> int \<Rightarrow> int \<Rightarrow> error + float64" where
  "Get_of r x y = (case r of Inl e \<Rightarrow> Inl e | Inr c \<Rightarrow> CostMap_Get c x y)"

text \<open>
  The carrier of scenario E2 (and of \<open>TestCostMapCalculation\<close>): 10 by 10, Green is 0 for
  \<open>x < 5\<close> and 255 for \<open>x \<ge> 5\<close>; Red and Blue are 0, Alpha is 255.
\<close>

definition E2_pixel :: "nat \<Rightarrow> RGBA" where
  "E2_pixel i =
     (if i mod 10 < 5 then \<lparr>Red = 0, Green = 0, Blue = 0, Alpha = 255\<rparr>
      else \<lparr>Red = 0, Green = 255, Blue = 0, Alpha = 255\<rparr>)"

definition E2_image :: Image where
  "E2_image = \<lparr>Dx = 10, Dy = 10, Pix = map E2_pixel [0..<100]\<rparr>"

text \<open>Arithmetic without rounding error, the simplest rounding there is.\<close>

definition exact :: "real \<Rightarrow> real" where
  "exact r = r"

text \<open>
  The cost of the spec (section 4.1) on a reference channel \<open>Rh\<close>, an integer intensity per
  pixel: the two Sobel sums, the magnitude \<open>m = sqrt (gx^2 + gy^2)\<close> and the cost
  \<open>c = 1 / (m + epsilon)\<close>, the square root, the sum and the quotient each rounded to a
  \<open>float64\<close>. The reference channel of the encoder and the decoder is Green.
\<close>

definition spec_Kx :: "int list list" where
  "spec_Kx = [[-1, 0, 1], [-2, 0, 2], [-1, 0, 1]]"

definition spec_Ky :: "int list list" where
  "spec_Ky = [[-1, -2, -1], [0, 0, 0], [1, 2, 1]]"

definition spec_gx :: "(int \<Rightarrow> int \<Rightarrow> int) \<Rightarrow> int \<Rightarrow> int \<Rightarrow> int" where
  "spec_gx Rh x y =
     (\<Sum>i\<leftarrow>[-1, 0, 1]. \<Sum>j\<leftarrow>[-1, 0, 1]. Rh (x + i) (y + j) * spec_Kx ! nat (i + 1) ! nat (j + 1))"

definition spec_gy :: "(int \<Rightarrow> int \<Rightarrow> int) \<Rightarrow> int \<Rightarrow> int \<Rightarrow> int" where
  "spec_gy Rh x y =
     (\<Sum>i\<leftarrow>[-1, 0, 1]. \<Sum>j\<leftarrow>[-1, 0, 1]. Rh (x + i) (y + j) * spec_Ky ! nat (i + 1) ! nat (j + 1))"

definition spec_cost :: "(real \<Rightarrow> real) \<Rightarrow> (int \<Rightarrow> int \<Rightarrow> int) \<Rightarrow> int \<Rightarrow> int \<Rightarrow> real" where
  "spec_cost rnd Rh x y =
     (let m = rnd (sqrt (of_int ((spec_gx Rh x y)\<^sup>2 + (spec_gy Rh x y)\<^sup>2)))
      in rnd (1 / rnd (m + rnd epsilon)))"

definition reference_channel :: "Image \<Rightarrow> int \<Rightarrow> int \<Rightarrow> int" where
  "reference_channel img x y = uint (Green (RGBAAt img x y))"

text \<open>
  What the statements on the values of the costs ask of the rounding: an integer of
  magnitude up to \<open>2^53\<close> is a \<open>float64\<close>, so rounding leaves it as it is.
\<close>

definition exact_on_ints :: "(real \<Rightarrow> real) \<Rightarrow> bool" where
  "exact_on_ints rnd = (\<forall>n::int. \<bar>n\<bar> \<le> 2 ^ 53 \<longrightarrow> rnd (of_int n) = of_int n)"

text \<open>The image of scenario E2 with another Red channel.\<close>

definition E2_red_image :: Image where
  "E2_red_image = \<lparr>Dx = 10, Dy = 10, Pix = map (\<lambda>i. (E2_pixel i)\<lparr>Red := 7\<rparr>) [0..<100]\<rparr>"

text \<open>Bit \<open>k\<close> of a message, most significant bit of a byte first, as the embedding loop takes it.\<close>

definition message_bit :: "byte list \<Rightarrow> nat \<Rightarrow> byte" where
  "message_bit message k = drop_bit (7 - k mod 8) (message ! (k div 8)) AND 1"

text \<open>
  What the documentation of \<open>sort.Slice\<close> promises: the result is a permutation of the
  slice, and it is sorted whenever \<open>less\<close> orders the elements of the slice (a strict
  weak order: irreflexive, transitive, and so is incomparability).
\<close>

definition sort_permutes :: "sort_Slice \<Rightarrow> bool" where
  "sort_permutes srt = (\<forall>lt xs. mset (srt lt xs) = mset xs)"

definition orders :: "('a \<Rightarrow> 'a \<Rightarrow> bool) \<Rightarrow> 'a set \<Rightarrow> bool" where
  "orders lt S =
     (\<forall>a\<in>S. \<forall>b\<in>S. \<forall>c\<in>S.
        \<not> lt a a \<and> (lt a b \<and> lt b c \<longrightarrow> lt a c)
        \<and> (\<not> lt a b \<and> \<not> lt b c \<longrightarrow> \<not> lt a c))"

definition sort_sorts :: "sort_Slice \<Rightarrow> bool" where
  "sort_sorts srt =
     (\<forall>lt xs. orders lt (set xs) \<longrightarrow> sorted_wrt (\<lambda>a b. \<not> lt b a) (srt lt xs))"

text \<open>
  A sort that keeps both promises, to show that they can be kept: insertion sort, which
  puts an element behind those that are not greater and so keeps equal elements in
  their order.
\<close>

fun insert_by :: "('a \<Rightarrow> 'a \<Rightarrow> bool) \<Rightarrow> 'a \<Rightarrow> 'a list \<Rightarrow> 'a list" where
  "insert_by before x [] = [x]"
| "insert_by before x (y # ys) =
     (if before x y then x # y # ys else y # insert_by before x ys)"

definition insertion_sort :: "('a \<Rightarrow> 'a \<Rightarrow> bool) \<Rightarrow> 'a list \<Rightarrow> 'a list" where
  "insertion_sort lt xs = fold (insert_by lt) xs []"

text \<open>
  The position order: the positions of the sorted slice, for a cost map and \<open>n\<close> pixels,
  and the one that both \<open>AdvancedEncode\<close> (in \<open>GetOptimalChanges\<close>) and \<open>AdvancedDecode\<close>
  compute for a raster.
\<close>

definition PositionOrder :: "sort_Slice \<Rightarrow> CostMap \<Rightarrow> nat \<Rightarrow> error + nat list" where
  "PositionOrder srt cm n =
     (case sorted_pixel_costs srt n cm of Inl e \<Rightarrow> Inl e | Inr spc \<Rightarrow> Inr (map pos spc))"

definition image_position_order ::
  "(real \<Rightarrow> real) \<Rightarrow> sort_Slice \<Rightarrow> Image \<Rightarrow> error + nat list" where
  "image_position_order rnd srt img =
     (case CalculateCosts rnd img 1 of
        Inl e \<Rightarrow> Inl e
      | Inr cm \<Rightarrow> PositionOrder srt cm (Dx img * Dy img))"

text \<open>A raster of two pixels side by side, both on the border.\<close>

definition two_pixels :: Image where
  "two_pixels =
     \<lparr>Dx = 2, Dy = 1,
      Pix = [\<lparr>Red = 0, Green = 0, Blue = 0, Alpha = 255\<rparr>,
             \<lparr>Red = 0, Green = 0, Blue = 0, Alpha = 255\<rparr>]\<rparr>"

text \<open>
  Concrete inputs: a strip of 72 black, opaque pixels, which has room for the header and
  one byte; a white square of 8 by 8 pixels; a random source that always fails and one
  that always delivers the byte 1.
\<close>

definition black_strip :: Image where
  "black_strip =
     \<lparr>Dx = 72, Dy = 1, Pix = replicate 72 \<lparr>Red = 0, Green = 0, Blue = 0, Alpha = 255\<rparr>\<rparr>"

definition white_square :: Image where
  "white_square =
     \<lparr>Dx = 8, Dy = 8, Pix = replicate 64 \<lparr>Red = 255, Green = 255, Blue = 255, Alpha = 255\<rparr>\<rparr>"

definition failing_source :: rand_source where
  "failing_source = (\<lambda>n. RandErr)"

definition ones_source :: rand_source where
  "ones_source = (\<lambda>n. RandByte 1)"

section \<open>The sort of the library (package sort)\<close>

text \<open>
  \<open>sort.Slice\<close> is code of the Go library, not of the repository. Since Go 1.19 it is a
  pattern-defeating quicksort, \<open>pdqsort_func\<close> of \<open>zsortfunc.go\<close>, which works on the slice
  through \<open>Less(i, j)\<close>, the closure of the caller on the elements at \<open>i\<close> and \<open>j\<close>, and
  \<open>Swap(i, j)\<close>. The indices are of type \<open>int\<close>; in a run of the library they lie in the
  slice.
\<close>

definition Less :: "('a \<Rightarrow> 'a \<Rightarrow> bool) \<Rightarrow> 'a list \<Rightarrow> int \<Rightarrow> int \<Rightarrow> bool" where
  "Less lt data i j = lt (data ! nat i) (data ! nat j)"

definition Swap :: "'a list \<Rightarrow> int \<Rightarrow> int \<Rightarrow> 'a list" where
  "Swap data i j = data[nat i := data ! nat j, nat j := data ! nat i]"

text \<open>
  \<open>insertionSort_func\<close>, on \<open>data[a:b]\<close>: the inner loop moves the element at \<open>j\<close> to the
  left while it is less than its left neighbour.
\<close>

function insertion_loop :: "('a \<Rightarrow> 'a \<Rightarrow> bool) \<Rightarrow> 'a list \<Rightarrow> int \<Rightarrow> int \<Rightarrow> 'a list" where
  "insertion_loop lt data a j =
     (if j > a \<and> Less lt data j (j - 1) then insertion_loop lt (Swap data j (j - 1)) a (j - 1)
      else data)"
  by pat_completeness auto
termination
  by (relation "measure (\<lambda>(lt, data, a, j). nat (j - a))") auto

declare insertion_loop.simps [simp del]

definition insertionSort_func :: "('a \<Rightarrow> 'a \<Rightarrow> bool) \<Rightarrow> 'a list \<Rightarrow> int \<Rightarrow> int \<Rightarrow> 'a list" where
  "insertionSort_func lt data a b = fold (\<lambda>i data. insertion_loop lt data a i) [a + 1..b - 1] data"

text \<open>
  \<open>choosePivot_func\<close>: the median of the elements at the three quarters of the slice
  (from 50 elements on, of the medians of their neighbourhoods), and a hint from the
  number of swaps that finding it took.
\<close>

datatype sortedHint = unknownHint | increasingHint | decreasingHint

definition order2_func ::
  "('a \<Rightarrow> 'a \<Rightarrow> bool) \<Rightarrow> 'a list \<Rightarrow> int \<Rightarrow> int \<Rightarrow> int \<Rightarrow> int \<times> int \<times> int" where
  "order2_func lt data a b swaps =
     (if Less lt data b a then (b, a, swaps + 1) else (a, b, swaps))"

definition median_func ::
  "('a \<Rightarrow> 'a \<Rightarrow> bool) \<Rightarrow> 'a list \<Rightarrow> int \<Rightarrow> int \<Rightarrow> int \<Rightarrow> int \<Rightarrow> int \<times> int" where
  "median_func lt data a b c swaps =
     (case order2_func lt data a b swaps of (a, b, swaps) \<Rightarrow>
      case order2_func lt data b c swaps of (b, c, swaps) \<Rightarrow>
      case order2_func lt data a b swaps of (a, b, swaps) \<Rightarrow> (b, swaps))"

definition medianAdjacent_func ::
  "('a \<Rightarrow> 'a \<Rightarrow> bool) \<Rightarrow> 'a list \<Rightarrow> int \<Rightarrow> int \<Rightarrow> int \<times> int" where
  "medianAdjacent_func lt data a swaps = median_func lt data (a - 1) a (a + 1) swaps"

definition choosePivot_func ::
  "('a \<Rightarrow> 'a \<Rightarrow> bool) \<Rightarrow> 'a list \<Rightarrow> int \<Rightarrow> int \<Rightarrow> int \<times> sortedHint" where
  "choosePivot_func lt data a b =
     (let l = b - a;
          i = a + l div 4 * 1;
          j = a + l div 4 * 2;
          k = a + l div 4 * 3
      in case (if l \<ge> 8
               then (case (if l \<ge> 50
                           then (case medianAdjacent_func lt data i 0 of (i, swaps) \<Rightarrow>
                                 case medianAdjacent_func lt data j swaps of (j, swaps) \<Rightarrow>
                                 case medianAdjacent_func lt data k swaps of (k, swaps) \<Rightarrow>
                                   (i, j, k, swaps))
                           else (i, j, k, 0)) of
                       (i, j, k, swaps) \<Rightarrow> median_func lt data i j k swaps)
               else (j, 0)) of
           (j, swaps) \<Rightarrow>
             if swaps = 0 then (j, increasingHint)
             else if swaps = 4 * 3 then (j, decreasingHint)
             else (j, unknownHint))"

text \<open>\<open>reverseRange_func\<close>.\<close>

function reverseRange_loop :: "'a list \<Rightarrow> int \<Rightarrow> int \<Rightarrow> 'a list" where
  "reverseRange_loop data i j =
     (if i < j then reverseRange_loop (Swap data i j) (i + 1) (j - 1) else data)"
  by pat_completeness auto
termination
  by (relation "measure (\<lambda>(data, i, j). nat (j - i))") auto

declare reverseRange_loop.simps [simp del]

definition reverseRange_func :: "'a list \<Rightarrow> int \<Rightarrow> int \<Rightarrow> 'a list" where
  "reverseRange_func data a b = reverseRange_loop data a (b - 1)"

text \<open>
  \<open>partialInsertionSort_func\<close>: the first loop runs to the first element that is less
  than its left neighbour; the function returns \<open>true\<close> when there is none, and \<open>false\<close>
  when the slice has fewer than 50 elements. The shifting that follows for 50 elements
  and more is not modelled: the run has no result then.
\<close>

function sorted_prefix :: "('a \<Rightarrow> 'a \<Rightarrow> bool) \<Rightarrow> 'a list \<Rightarrow> int \<Rightarrow> int \<Rightarrow> int" where
  "sorted_prefix lt data i b =
     (if i < b \<and> \<not> Less lt data i (i - 1) then sorted_prefix lt data (i + 1) b else i)"
  by pat_completeness auto
termination
  by (relation "measure (\<lambda>(lt, data, i, b). nat (b - i))") auto

declare sorted_prefix.simps [simp del]

definition partialInsertionSort_func ::
  "('a \<Rightarrow> 'a \<Rightarrow> bool) \<Rightarrow> 'a list \<Rightarrow> int \<Rightarrow> int \<Rightarrow> bool option" where
  "partialInsertionSort_func lt data a b =
     (let i = sorted_prefix lt data (a + 1) b
      in if i = b then Some True
         else if b - a < 50 then Some False
         else None)"

text \<open>
  The two inner loops of both partitions: \<open>for i <= j && c(i) { i++ }\<close> and
  \<open>for i <= j && c(j) { j-- }\<close>.
\<close>

function up_while :: "(int \<Rightarrow> bool) \<Rightarrow> int \<Rightarrow> int \<Rightarrow> int" where
  "up_while c i j = (if i \<le> j \<and> c i then up_while c (i + 1) j else i)"
  by pat_completeness auto
termination
  by (relation "measure (\<lambda>(c, i, j). nat (j + 1 - i))") auto

declare up_while.simps [simp del]

function down_while :: "(int \<Rightarrow> bool) \<Rightarrow> int \<Rightarrow> int \<Rightarrow> int" where
  "down_while c i j = (if i \<le> j \<and> c j then down_while c i (j - 1) else j)"
  by pat_completeness auto
termination
  by (relation "measure (\<lambda>(c, i, j). nat (j + 1 - i))") auto

declare down_while.simps [simp del]

text \<open>
  \<open>partition_func\<close>: the pivot goes to \<open>a\<close>, the elements less than it to the left;
  the result is the slice, the new place of the pivot, and whether the slice was
  partitioned already.
\<close>

function partition_loop ::
  "('a \<Rightarrow> 'a \<Rightarrow> bool) \<Rightarrow> 'a list \<Rightarrow> int \<Rightarrow> int \<Rightarrow> int \<Rightarrow> 'a list \<times> int" where
  "partition_loop lt data a i j =
     (let i = up_while (\<lambda>i. Less lt data i a) i j;
          j = down_while (\<lambda>j. \<not> Less lt data j a) i j
      in if i > j then (data, j)
         else partition_loop lt (Swap data i j) a (i + 1) (j - 1))"
  by pat_completeness auto

termination
proof (relation "measure (\<lambda>(lt, data, a, i, j). nat (j + 1 - i))")
  have up: "i \<le> up_while c i j" for c i j
    by (induction c i j rule: up_while.induct) (subst up_while.simps, auto)
  have down: "down_while c i j \<le> j" for c i j
    by (induction c i j rule: down_while.induct) (subst down_while.simps, auto)
  show "wf (measure (\<lambda>(lt, data, a, i, j). nat (j + 1 - i)))" by simp
  fix lt :: "'a \<Rightarrow> 'a \<Rightarrow> bool" and data :: "'a list" and a i j i' j' :: int
  assume "i' = up_while (\<lambda>i. Less lt data i a) i j"
    and "j' = down_while (\<lambda>j. \<not> Less lt data j a) i' j" and "\<not> j' < i'"
  then show "((lt, Swap data i' j', a, i' + 1, j' - 1), (lt, data, a, i, j))
               \<in> measure (\<lambda>(lt, data, a, i, j). nat (j + 1 - i))"
    using up [of i "\<lambda>i. Less lt data i a" j] down [of "\<lambda>j. \<not> Less lt data j a" i' j]
    by simp
qed

declare partition_loop.simps [simp del]

definition partition_func ::
  "('a \<Rightarrow> 'a \<Rightarrow> bool) \<Rightarrow> 'a list \<Rightarrow> int \<Rightarrow> int \<Rightarrow> int \<Rightarrow> 'a list \<times> int \<times> bool" where
  "partition_func lt data a b pivot =
     (let data = Swap data a pivot;
          i = up_while (\<lambda>i. Less lt data i a) (a + 1) (b - 1);
          j = down_while (\<lambda>j. \<not> Less lt data j a) i (b - 1)
      in if i > j then (Swap data j a, j, True)
         else (case partition_loop lt (Swap data i j) a (i + 1) (j - 1) of
                 (data, j) \<Rightarrow> (Swap data j a, j, False)))"

text \<open>\<open>partitionEqual_func\<close>: the elements equal to the pivot go to the left.\<close>

function partitionEqual_loop ::
  "('a \<Rightarrow> 'a \<Rightarrow> bool) \<Rightarrow> 'a list \<Rightarrow> int \<Rightarrow> int \<Rightarrow> int \<Rightarrow> 'a list \<times> int" where
  "partitionEqual_loop lt data a i j =
     (let i = up_while (\<lambda>i. \<not> Less lt data a i) i j;
          j = down_while (\<lambda>j. Less lt data a j) i j
      in if i > j then (data, i)
         else partitionEqual_loop lt (Swap data i j) a (i + 1) (j - 1))"
  by pat_completeness auto
termination
proof (relation "measure (\<lambda>(lt, data, a, i, j). nat (j + 1 - i))")
  have up: "i \<le> up_while c i j" for c i j
    by (induction c i j rule: up_while.induct) (subst up_while.simps, auto)
  have down: "down_while c i j \<le> j" for c i j
    by (induction c i j rule: down_while.induct) (subst down_while.simps, auto)
  show "wf (measure (\<lambda>(lt, data, a, i, j). nat (j + 1 - i)))" by simp
  fix lt :: "'a \<Rightarrow> 'a \<Rightarrow> bool" and data :: "'a list" and a i j i' j' :: int
  assume "i' = up_while (\<lambda>i. \<not> Less lt data a i) i j"
    and "j' = down_while (\<lambda>j. Less lt data a j) i' j" and "\<not> j' < i'"
  then show "((lt, Swap data i' j', a, i' + 1, j' - 1), (lt, data, a, i, j))
               \<in> measure (\<lambda>(lt, data, a, i, j). nat (j + 1 - i))"
    using up [of i "\<lambda>i. \<not> Less lt data a i" j] down [of "\<lambda>j. Less lt data a j" i' j]
    by simp
qed

declare partitionEqual_loop.simps [simp del]

definition partitionEqual_func ::
  "('a \<Rightarrow> 'a \<Rightarrow> bool) \<Rightarrow> 'a list \<Rightarrow> int \<Rightarrow> int \<Rightarrow> int \<Rightarrow> 'a list \<times> int" where
  "partitionEqual_func lt data a b pivot =
     partitionEqual_loop lt (Swap data a pivot) a (a + 1) (b - 1)"

text \<open>
  \<open>pdqsort_func\<close>, on \<open>data[a:b]\<close>. Each round of its loop, and each call of itself, works
  on a shorter slice; the model counts them (\<open>fuel\<close>), from the length of the slice of
  \<open>sort.Slice\<close> down, and a run that used them up would have no result. After a partition
  that was not balanced the library calls
  \<open>breakPatterns_func\<close>, which swaps elements chosen by a pseudo-random generator, and
  lowers \<open>limit\<close>; this is not modelled, the run has no result then. No run of the model
  reaches \<open>limit = 0\<close>, the branch of \<open>heapSort_func\<close>, since nothing else lowers \<open>limit\<close>.
\<close>

fun pdqsort_func ::
  "nat \<Rightarrow> ('a \<Rightarrow> 'a \<Rightarrow> bool) \<Rightarrow> 'a list \<Rightarrow> int \<Rightarrow> int \<Rightarrow> bool \<Rightarrow> bool \<Rightarrow> 'a list option" where
  "pdqsort_func 0 lt data a b wasBalanced wasPartitioned = None"
| "pdqsort_func (Suc fuel) lt data a b wasBalanced wasPartitioned =
     (let len = b - a
      in if len \<le> 12 then Some (insertionSort_func lt data a b)
         else if \<not> wasBalanced then None
         else
           (case choosePivot_func lt data a b of
              (pivot, hint) \<Rightarrow>
           (case (if hint = decreasingHint
                  then (reverseRange_func data a b, (b - 1) - (pivot - a), increasingHint)
                  else (data, pivot, hint)) of
              (data, pivot, hint) \<Rightarrow>
           (case (if wasBalanced \<and> wasPartitioned \<and> hint = increasingHint
                  then partialInsertionSort_func lt data a b
                  else Some False) of
              None \<Rightarrow> None
            | Some True \<Rightarrow> Some data
            | Some False \<Rightarrow>
                if a > 0 \<and> \<not> Less lt data (a - 1) pivot
                then (case partitionEqual_func lt data a b pivot of
                        (data, mid) \<Rightarrow>
                          pdqsort_func fuel lt data mid b wasBalanced wasPartitioned)
                else
                  (case partition_func lt data a b pivot of
                     (data, mid, alreadyPartitioned) \<Rightarrow>
                       let leftLen = mid - a;
                           rightLen = b - mid;
                           balanceThreshold = len div 8
                       in if leftLen < rightLen
                          then (case pdqsort_func fuel lt data a mid True True of
                                  None \<Rightarrow> None
                                | Some data \<Rightarrow>
                                    pdqsort_func fuel lt data (mid + 1) b
                                      (leftLen \<ge> balanceThreshold) alreadyPartitioned)
                          else (case pdqsort_func fuel lt data (mid + 1) b True True of
                                  None \<Rightarrow> None
                                | Some data \<Rightarrow>
                                    pdqsort_func fuel lt data a mid
                                      (rightLen \<ge> balanceThreshold) alreadyPartitioned))))))"

text \<open>\<open>sort.Slice(x, less)\<close>: the sorted slice, when the model follows the run to its end.\<close>

definition Slice :: "('a \<Rightarrow> 'a \<Rightarrow> bool) \<Rightarrow> 'a list \<Rightarrow> 'a list option" where
  "Slice lt x = pdqsort_func (Suc (length x)) lt x 0 (int (length x)) True True"

text \<open>
  The position order of a raster with this sort: steps 1 and 2 of \<open>GetOptimalChanges\<close>
  and steps 4 and 5 of \<open>AdvancedDecode\<close>.
\<close>

definition Slice_position_order ::
  "(real \<Rightarrow> real) \<Rightarrow> Image \<Rightarrow> (error + nat list) option" where
  "Slice_position_order rnd img =
     (case CalculateCosts rnd img 1 of
        Inl e \<Rightarrow> Some (Inl e)
      | Inr cm \<Rightarrow>
          (case all_pixel_costs (Dx img * Dy img) cm of
             Inl e \<Rightarrow> Some (Inl e)
           | Inr allPixelCosts \<Rightarrow>
               (case Slice cost_less allPixelCosts of
                  None \<Rightarrow> None
                | Some allPixelCosts \<Rightarrow> Some (Inr (map pos allPixelCosts)))))"

text \<open>
  Three more rasters: a black, opaque square of 4 by 4 pixels; a strip of 72 pixels of
  alpha 128, whose colours are premultiplied, as \<open>getImageAsRGBA\<close> delivers it for a PNG
  with the samples 200, 200, 50, 128 at every pixel; and a strip of 72 transparent
  pixels.
\<close>

definition black_square :: Image where
  "black_square =
     \<lparr>Dx = 4, Dy = 4, Pix = replicate 16 \<lparr>Red = 0, Green = 0, Blue = 0, Alpha = 255\<rparr>\<rparr>"

definition veiled_strip :: Image where
  "veiled_strip =
     \<lparr>Dx = 72, Dy = 1, Pix = replicate 72 \<lparr>Red = 100, Green = 100, Blue = 25, Alpha = 128\<rparr>\<rparr>"

definition transparent_strip :: Image where
  "transparent_strip =
     \<lparr>Dx = 72, Dy = 1, Pix = replicate 72 \<lparr>Red = 0, Green = 0, Blue = 0, Alpha = 0\<rparr>\<rparr>"

section \<open>Properties of LSB matching\<close>

lemma byte_lsb_parity: "(p::byte) AND 1 = of_bool (odd p)"
  by (simp add: and_one_eq mod_2_eq_odd)

lemma byte_lsb_succ: "((p::byte) + 1) AND 1 = 1 - (p AND 1)"
  by (cases "even p") (simp_all add: byte_lsb_parity)

lemma byte_lsb_pred: "((p::byte) - 1) AND 1 = 1 - (p AND 1)"
  by (cases "even p") (simp_all add: byte_lsb_parity)

lemma byte_lsb_cases: "(p::byte) AND 1 = 0 \<or> p AND 1 = 1"
  by (cases "even p") (simp_all add: byte_lsb_parity)

lemma uint_byte_succ: "(p::byte) \<noteq> 255 \<Longrightarrow> uint (p + 1) = uint p + 1"
  using uint_lt2p [of p] uint_ge_0 [of p]
  by (simp add: uint_word_ariths word_eq_iff_unsigned [where ?'a = int])

lemma uint_byte_pred: "(p::byte) \<noteq> 0 \<Longrightarrow> uint (p - 1) = uint p - 1"
  by (metis uint_minus_simple_alt unsigned_1 word_coorder.extremum word_le_sub1)

lemma byte_lsb_flip:
  assumes "b = 0 \<or> b = 1" and "(p::byte) AND 1 \<noteq> b"
  shows "(p + 1) AND 1 = b" and "(p - 1) AND 1 = b"
  using assms byte_lsb_cases [of p] by (auto simp: byte_lsb_succ byte_lsb_pred)

text \<open>The pixel that \<open>LSBMatchingEmbed\<close> returns is one of \<open>p\<close>, \<open>p + 1\<close>, \<open>p - 1\<close>.\<close>

lemma LSBMatchingEmbed_cases:
  "fst (fst (LSBMatchingEmbed p b c rs)) =
     (if p AND 1 = b then p
      else if p = 255 then p - 1
      else if p = 0 then p + 1
      else (case rs 0 of RandErr \<Rightarrow> p + 1
            | RandByte r \<Rightarrow> if r AND 1 = 1 then p + 1 else p - 1))"
  by (simp add: LSBMatchingEmbed_def rand_Read_def Let_def split: rand_result.splits)

lemma LSBMatchingEmbed_lsb:
  assumes "b = 0 \<or> b = 1"
  shows "fst (fst (LSBMatchingEmbed p b c rs)) AND 1 = b"
  using assms byte_lsb_flip [OF assms, of p]
  by (auto simp: LSBMatchingEmbed_cases split: rand_result.splits)

lemma LSBMatchingEmbed_delta:
  "\<bar>uint (fst (fst (LSBMatchingEmbed p b c rs))) - uint p\<bar> \<le> 1"
proof -
  have up: "p \<noteq> 255 \<Longrightarrow> \<bar>uint (p + 1) - uint p\<bar> \<le> 1"
    by (simp add: uint_byte_succ)
  have down: "p \<noteq> 0 \<Longrightarrow> \<bar>uint (p - 1) - uint p\<bar> \<le> 1"
    by (simp add: uint_byte_pred)
  have down255: "\<bar>uint ((255::byte) - 1) - uint (255::byte)\<bar> \<le> 1"
    by simp
  show ?thesis
    using up down down255
    by (auto simp: LSBMatchingEmbed_cases split: rand_result.splits)
qed

text \<open>
  C3. For every pixel value, every bit in \<open>{0,1}\<close> and every outcome of the random source,
  the output of \<open>LSBMatchingEmbed\<close> has least significant bit \<open>bit\<close> and differs from the
  input by at most one; when the least significant bit differs, 0 becomes 1 and 255
  becomes 254; \<open>LSBMatchingEmbed(100, 1)\<close> is 99 or 101.
\<close>

theorem LSBMatchingEmbed_post:
  "b = 0 \<or> b = 1 \<Longrightarrow>
     fst (fst (LSBMatchingEmbed p b c rs)) AND 1 = b
     \<and> \<bar>uint (fst (fst (LSBMatchingEmbed p b c rs))) - uint p\<bar> \<le> 1
     \<and> (p AND 1 \<noteq> b \<longrightarrow>
          (p = 0 \<longrightarrow> fst (fst (LSBMatchingEmbed p b c rs)) = 1)
          \<and> (p = 255 \<longrightarrow> fst (fst (LSBMatchingEmbed p b c rs)) = 254))
     \<and> (fst (fst (LSBMatchingEmbed 100 1 c rs)) = 99
          \<or> fst (fst (LSBMatchingEmbed 100 1 c rs)) = 101)"
proof -
  assume bb: "b = 0 \<or> b = 1"
  have "fst (fst (LSBMatchingEmbed 100 1 c rs)) = 99
        \<or> fst (fst (LSBMatchingEmbed 100 1 c rs)) = 101"
    by (simp add: LSBMatchingEmbed_cases split: rand_result.splits)
  moreover have "p AND 1 \<noteq> b \<longrightarrow>
          (p = 0 \<longrightarrow> fst (fst (LSBMatchingEmbed p b c rs)) = 1)
          \<and> (p = 255 \<longrightarrow> fst (fst (LSBMatchingEmbed p b c rs)) = 254)"
    by (auto simp: LSBMatchingEmbed_cases)
  ultimately show ?thesis
    using LSBMatchingEmbed_lsb [OF bb, of p c rs] LSBMatchingEmbed_delta [of p b c rs]
    by blast
qed

theorem LSBMatchingEmbed_post_witness:
  "((1::byte) = 0 \<or> (1::byte) = 1)
   \<and> (0::byte) AND 1 \<noteq> 1
   \<and> fst (fst (LSBMatchingEmbed 0 1 (Finite 1) (\<lambda>n. RandByte 0))) = 1
   \<and> fst (fst (LSBMatchingEmbed 0 1 (Finite 1) (\<lambda>n. RandByte 0))) AND 1 = 1"
  using LSBMatchingEmbed_post [of 1 0 "Finite 1" "\<lambda>n. RandByte 0"] by simp

text \<open>
  C9. If the random source fails inside \<open>LSBMatchingEmbed\<close>, for a pixel whose least
  significant bit differs from the bit to embed, the function returns \<open>p + 1\<close>, except
  at \<open>p = 255\<close>, where it returns 254; it returns a pixel and no error.
\<close>

theorem LSBMatchingEmbed_rand_failure:
  "p AND 1 \<noteq> b \<Longrightarrow> rs 0 = RandErr \<Longrightarrow>
     fst (LSBMatchingEmbed p b c rs) = (if p = 255 then 254 else p + 1, c)"
  by (simp add: LSBMatchingEmbed_def rand_Read_def)

theorem LSBMatchingEmbed_rand_failure_witness:
  "(100::byte) AND 1 \<noteq> 1 \<and> (255::byte) AND 1 \<noteq> 0
   \<and> fst (LSBMatchingEmbed 100 1 (Finite 1) (\<lambda>n. RandErr)) = (101, Finite 1)
   \<and> fst (LSBMatchingEmbed 255 0 (Finite 1) (\<lambda>n. RandErr)) = (254, Finite 1)"
  using LSBMatchingEmbed_rand_failure [of 100 1 "\<lambda>n. RandErr" "Finite 1"]
    LSBMatchingEmbed_rand_failure [of 255 0 "\<lambda>n. RandErr" "Finite 1"]
  by simp

section \<open>Properties of the cost map\<close>

lemma raster_index_bounds:
  assumes "in_raster w h x y"
  shows "0 \<le> y * w + x" and "y * w + x < w * h"
proof -
  have wpos: "0 < w" using assms by (auto simp: in_raster_def)
  show "0 \<le> y * w + x" using assms wpos by (auto simp: in_raster_def)
  have "y * w + x < (y + 1) * w" using assms by (auto simp: in_raster_def algebra_simps)
  also have "\<dots> \<le> h * w" using assms wpos by (intro mult_right_mono) (auto simp: in_raster_def)
  finally show "y * w + x < w * h" by (simp add: mult.commute)
qed

lemma raster_index_inj:
  assumes "in_raster w h x y" "in_raster w h x' y'"
  shows "(y' * w + x' = y * w + x) = (x' = x \<and> y' = y)"
proof
  assume e: "y' * w + x' = y * w + x"
  have "(y' * w + x') div w = y'" using assms(2) by (auto simp: in_raster_def)
  moreover have "(y * w + x) div w = y" using assms(1) by (auto simp: in_raster_def)
  ultimately have "y' = y" using e by simp
  with e show "x' = x \<and> y' = y" by simp
qed auto

lemma CostMap_Set_ok:
  assumes d: "cm_dims w h c" and r: "in_raster w h x y"
  shows "\<exists>c'. CostMap_Set c x y v = Inr c' \<and> cm_dims w h c' \<and>
           (\<forall>x' y'. in_raster w h x' y' \<longrightarrow>
               cost_at c' x' y' = (if x' = x \<and> y' = y then v else cost_at c x' y'))"
proof -
  define c' where "c' = c\<lparr>costs := (costs c)[nat (y * w + x) := v]\<rparr>"
  have w: "width c = w" and len: "int (length (costs c)) = w * h"
    using d by (auto simp: cm_dims_def)
  have 1: "CostMap_Set c x y v = Inr c'"
    using raster_index_bounds [OF r] by (simp add: CostMap_Set_def Let_def w len c'_def)
  have 2: "cm_dims w h c'"
    using d by (simp add: cm_dims_def c'_def)
  have 3: "cost_at c' x' y' = (if x' = x \<and> y' = y then v else cost_at c x' y')"
    if r': "in_raster w h x' y'" for x' y'
  proof -
    have lt: "nat (y * w + x) < length (costs c)"
      using raster_index_bounds [OF r] len by linarith
    have "(nat (y' * w + x') = nat (y * w + x)) = (x' = x \<and> y' = y)"
      using raster_index_inj [OF r r'] raster_index_bounds(1) [OF r] raster_index_bounds(1) [OF r']
      by (simp add: nat_eq_iff)
    then show ?thesis
      using lt by (auto simp: cost_at_def c'_def w nth_list_update)
  qed
  show ?thesis using 1 2 3 by blast
qed

text \<open>A loop whose every iteration writes a value that depends on the pixel only.\<close>

lemma for_each_writes:
  assumes step: "\<And>i c. i \<in> set idxs \<Longrightarrow> cm_dims w h c \<Longrightarrow>
             \<exists>c'. body i c = Inr c' \<and> cm_dims w h c' \<and>
               (\<forall>x y. in_raster w h x y \<longrightarrow>
                  cost_at c' x y = (if T i x y then V x y else cost_at c x y))"
    and d: "cm_dims w h c"
  shows "\<exists>c'. for_each idxs body c = Inr c' \<and> cm_dims w h c' \<and>
           (\<forall>x y. in_raster w h x y \<longrightarrow>
              cost_at c' x y = (if \<exists>i\<in>set idxs. T i x y then V x y else cost_at c x y))"
  using step d
proof (induction idxs arbitrary: c)
  case Nil
  then show ?case by simp
next
  case (Cons i rest)
  from Cons.prems(1) [of i c] Cons.prems(2)
  obtain c1 where b: "body i c = Inr c1" and d1: "cm_dims w h c1"
    and v1: "\<And>x y. in_raster w h x y \<Longrightarrow>
                cost_at c1 x y = (if T i x y then V x y else cost_at c x y)"
    by auto
  have "\<exists>c'. for_each rest body c1 = Inr c' \<and> cm_dims w h c' \<and>
           (\<forall>x y. in_raster w h x y \<longrightarrow>
              cost_at c' x y = (if \<exists>i\<in>set rest. T i x y then V x y else cost_at c1 x y))"
    by (rule Cons.IH [OF _ d1]) (use Cons.prems(1) in auto)
  then obtain c2 where f: "for_each rest body c1 = Inr c2" and d2: "cm_dims w h c2"
    and v2: "\<And>x y. in_raster w h x y \<Longrightarrow>
                cost_at c2 x y = (if \<exists>i\<in>set rest. T i x y then V x y else cost_at c1 x y)"
    by auto
  have "for_each (i # rest) body c = Inr c2" using b f by simp
  moreover have "cost_at c2 x y = (if \<exists>j\<in>set (i # rest). T j x y then V x y else cost_at c x y)"
    if "in_raster w h x y" for x y
    using v1 [OF that] v2 [OF that] by auto
  ultimately show ?case using d2 by blast
qed

lemma set_border_ok:
  assumes d: "cm_dims w h c" and r: "in_raster w h x y" and r': "in_raster w h x' y'"
  shows "\<exists>c'. set_border x y x' y' c = Inr c' \<and> cm_dims w h c' \<and>
           (\<forall>a b. in_raster w h a b \<longrightarrow>
               cost_at c' a b = (if (a = x \<and> b = y) \<or> (a = x' \<and> b = y')
                                 then Finite MaxFloat64 else cost_at c a b))"
proof -
  from CostMap_Set_ok [OF d r, of "Finite MaxFloat64"]
  obtain c1 where s1: "CostMap_Set c x y (Finite MaxFloat64) = Inr c1" and d1: "cm_dims w h c1"
    and v1: "\<And>a b. in_raster w h a b \<Longrightarrow>
               cost_at c1 a b = (if a = x \<and> b = y then Finite MaxFloat64 else cost_at c a b)"
    by auto
  from CostMap_Set_ok [OF d1 r', of "Finite MaxFloat64"]
  obtain c2 where s2: "CostMap_Set c1 x' y' (Finite MaxFloat64) = Inr c2" and d2: "cm_dims w h c2"
    and v2: "\<And>a b. in_raster w h a b \<Longrightarrow>
               cost_at c2 a b = (if a = x' \<and> b = y' then Finite MaxFloat64 else cost_at c1 a b)"
    by auto
  have "set_border x y x' y' c = Inr c2" using s1 s2 by (simp add: set_border_def)
  moreover have "cost_at c2 a b = (if (a = x \<and> b = y) \<or> (a = x' \<and> b = y')
                                 then Finite MaxFloat64 else cost_at c a b)"
    if "in_raster w h a b" for a b
    using v1 [OF that] v2 [OF that] by auto
  ultimately show ?thesis using d2 by blast
qed

lemma NewCostMap_dims:
  assumes "0 \<le> w" "0 \<le> h"
  shows "cm_dims w h (NewCostMap w h)"
    and "in_raster w h x y \<Longrightarrow> cost_at (NewCostMap w h) x y = Finite 0"
proof -
  show "cm_dims w h (NewCostMap w h)"
    using assms by (simp add: cm_dims_def NewCostMap_def)
  assume r: "in_raster w h x y"
  have "nat (y * w + x) < nat (w * h)"
    using raster_index_bounds [OF r] by linarith
  then show "cost_at (NewCostMap w h) x y = Finite 0"
    by (simp add: cost_at_def NewCostMap_def)
qed

lemma interior_loops_ok:
  assumes d: "cm_dims w h c"
  shows "\<exists>c'. for_each [1..h - 2]
               (\<lambda>y. for_each [1..w - 2] (\<lambda>x c. CostMap_Set c x y (Finite (F x y)))) c = Inr c'
            \<and> cm_dims w h c'
            \<and> (\<forall>x y. in_raster w h x y \<longrightarrow>
                 cost_at c' x y = (if interior w h x y then Finite (F x y) else cost_at c x y))"
proof -
  have row: "\<exists>c'. for_each [1..w - 2] (\<lambda>x c. CostMap_Set c x y (Finite (F x y))) c = Inr c'
            \<and> cm_dims w h c'
            \<and> (\<forall>a b. in_raster w h a b \<longrightarrow>
                 cost_at c' a b = (if \<exists>x\<in>set [1..w - 2]. a = x \<and> b = y
                                   then Finite (F a b) else cost_at c a b))"
    if y: "y \<in> set [1..h - 2]" and dc: "cm_dims w h c" for y c
  proof (rule for_each_writes [OF _ dc])
    fix x c assume x: "x \<in> set [1..w - 2]" and dc': "cm_dims w h c"
    have r: "in_raster w h x y" using x y by (auto simp: in_raster_def)
    from CostMap_Set_ok [OF dc' r, of "Finite (F x y)"]
    show "\<exists>c'. CostMap_Set c x y (Finite (F x y)) = Inr c' \<and> cm_dims w h c' \<and>
            (\<forall>a b. in_raster w h a b \<longrightarrow>
               cost_at c' a b = (if a = x \<and> b = y then Finite (F a b) else cost_at c a b))"
      by auto
  qed
  have "\<exists>c'. for_each [1..h - 2]
               (\<lambda>y. for_each [1..w - 2] (\<lambda>x c. CostMap_Set c x y (Finite (F x y)))) c = Inr c'
            \<and> cm_dims w h c'
            \<and> (\<forall>a b. in_raster w h a b \<longrightarrow>
                 cost_at c' a b = (if \<exists>y\<in>set [1..h - 2]. \<exists>x\<in>set [1..w - 2]. a = x \<and> b = y
                                   then Finite (F a b) else cost_at c a b))"
    by (rule for_each_writes [OF _ d]) (use row in blast)
  moreover have "(\<exists>y\<in>set [1..h - 2]. \<exists>x\<in>set [1..w - 2]. a = x \<and> b = y) = interior w h a b"
    for a b
    by (auto simp: interior_def)
  ultimately show ?thesis by simp
qed

lemma border_rows_ok:
  assumes d: "cm_dims w h c" and w: "1 \<le> w"
  shows "\<exists>c'. for_each [0..h - 1] (\<lambda>y. set_border 0 y (w - 1) y) c = Inr c'
            \<and> cm_dims w h c'
            \<and> (\<forall>x y. in_raster w h x y \<longrightarrow>
                 cost_at c' x y = (if x = 0 \<or> x = w - 1 then Finite MaxFloat64 else cost_at c x y))"
proof -
  have "\<exists>c'. for_each [0..h - 1] (\<lambda>y. set_border 0 y (w - 1) y) c = Inr c'
            \<and> cm_dims w h c'
            \<and> (\<forall>a b. in_raster w h a b \<longrightarrow>
                 cost_at c' a b = (if \<exists>y\<in>set [0..h - 1]. (a = 0 \<or> a = w - 1) \<and> b = y
                                   then Finite MaxFloat64 else cost_at c a b))"
  proof (rule for_each_writes [OF _ d])
    fix y c assume y: "y \<in> set [0..h - 1]" and dc: "cm_dims w h c"
    have r: "in_raster w h 0 y" and r': "in_raster w h (w - 1) y"
      using y w by (auto simp: in_raster_def)
    from set_border_ok [OF dc r r']
    show "\<exists>c'. set_border 0 y (w - 1) y c = Inr c' \<and> cm_dims w h c' \<and>
            (\<forall>a b. in_raster w h a b \<longrightarrow>
               cost_at c' a b = (if (a = 0 \<or> a = w - 1) \<and> b = y
                                 then Finite MaxFloat64 else cost_at c a b))"
      by (auto cong: if_cong)
  qed
  moreover have "(\<exists>y\<in>set [0..h - 1]. (a = 0 \<or> a = w - 1) \<and> b = y) = (a = 0 \<or> a = w - 1)"
    if "in_raster w h a b" for a b
    using that by (auto simp: in_raster_def)
  ultimately show ?thesis by (auto cong: if_cong)
qed

lemma border_columns_ok:
  assumes d: "cm_dims w h c" and h: "1 \<le> h"
  shows "\<exists>c'. for_each [0..w - 1] (\<lambda>x. set_border x 0 x (h - 1)) c = Inr c'
            \<and> cm_dims w h c'
            \<and> (\<forall>x y. in_raster w h x y \<longrightarrow>
                 cost_at c' x y = (if y = 0 \<or> y = h - 1 then Finite MaxFloat64 else cost_at c x y))"
proof -
  have "\<exists>c'. for_each [0..w - 1] (\<lambda>x. set_border x 0 x (h - 1)) c = Inr c'
            \<and> cm_dims w h c'
            \<and> (\<forall>a b. in_raster w h a b \<longrightarrow>
                 cost_at c' a b = (if \<exists>x\<in>set [0..w - 1]. a = x \<and> (b = 0 \<or> b = h - 1)
                                   then Finite MaxFloat64 else cost_at c a b))"
  proof (rule for_each_writes [OF _ d])
    fix x c assume x: "x \<in> set [0..w - 1]" and dc: "cm_dims w h c"
    have r: "in_raster w h x 0" and r': "in_raster w h x (h - 1)"
      using x h by (auto simp: in_raster_def)
    from set_border_ok [OF dc r r']
    show "\<exists>c'. set_border x 0 x (h - 1) c = Inr c' \<and> cm_dims w h c' \<and>
            (\<forall>a b. in_raster w h a b \<longrightarrow>
               cost_at c' a b = (if a = x \<and> (b = 0 \<or> b = h - 1)
                                 then Finite MaxFloat64 else cost_at c a b))"
      by (auto cong: if_cong)
  qed
  moreover have "(\<exists>x\<in>set [0..w - 1]. a = x \<and> (b = 0 \<or> b = h - 1)) = (b = 0 \<or> b = h - 1)"
    if "in_raster w h a b" for a b
    using that by (auto simp: in_raster_def)
  ultimately show ?thesis by (auto cong: if_cong)
qed

text \<open>What \<open>CalculateCosts\<close> returns on a raster of positive dimensions.\<close>

lemma CalculateCosts_ok:
  assumes "1 \<le> Dx img" and "1 \<le> Dy img"
  shows "\<exists>c. CalculateCosts rnd img channel = Inr c
            \<and> cm_dims (int (Dx img)) (int (Dy img)) c
            \<and> (\<forall>x y. in_raster (int (Dx img)) (int (Dy img)) x y \<longrightarrow>
                 cost_at c x y =
                   (if on_border (int (Dx img)) (int (Dy img)) x y then Finite MaxFloat64
                    else Finite (pixel_cost rnd img x y channel)))"
proof -
  define w h where "w = int (Dx img)" and "h = int (Dy img)"
  have w: "1 \<le> w" and h: "1 \<le> h" using assms by (auto simp: w_def h_def)
  have d0: "cm_dims w h (NewCostMap w h)" using w h by (intro NewCostMap_dims) auto
  from interior_loops_ok [OF d0, of "\<lambda>x y. pixel_cost rnd img x y channel"]
  obtain c1 where l1: "for_each [1..h - 2]
        (\<lambda>y. for_each [1..w - 2]
           (\<lambda>x c. CostMap_Set c x y (Finite (pixel_cost rnd img x y channel)))) (NewCostMap w h)
        = Inr c1"
    and d1: "cm_dims w h c1"
    and v1: "\<And>x y. in_raster w h x y \<Longrightarrow>
        cost_at c1 x y = (if interior w h x y then Finite (pixel_cost rnd img x y channel)
                          else cost_at (NewCostMap w h) x y)"
    by auto
  from border_rows_ok [OF d1 w]
  obtain c2 where l2: "for_each [0..h - 1] (\<lambda>y. set_border 0 y (w - 1) y) c1 = Inr c2"
    and d2: "cm_dims w h c2"
    and v2: "\<And>x y. in_raster w h x y \<Longrightarrow>
        cost_at c2 x y = (if x = 0 \<or> x = w - 1 then Finite MaxFloat64 else cost_at c1 x y)"
    by auto
  from border_columns_ok [OF d2 h]
  obtain c3 where l3: "for_each [0..w - 1] (\<lambda>x. set_border x 0 x (h - 1)) c2 = Inr c3"
    and d3: "cm_dims w h c3"
    and v3: "\<And>x y. in_raster w h x y \<Longrightarrow>
        cost_at c3 x y = (if y = 0 \<or> y = h - 1 then Finite MaxFloat64 else cost_at c2 x y)"
    by auto
  have res: "CalculateCosts rnd img channel = Inr c3"
    using l1 l2 l3 by (simp add: CalculateCosts_def Let_def w_def h_def)
  have "cost_at c3 x y = (if on_border w h x y then Finite MaxFloat64
                          else Finite (pixel_cost rnd img x y channel))"
    if r: "in_raster w h x y" for x y
  proof -
    have "\<not> on_border w h x y \<Longrightarrow> interior w h x y"
      using r by (auto simp: on_border_def interior_def in_raster_def)
    then show ?thesis
      using v1 [OF r] v2 [OF r] v3 [OF r] by (auto simp: on_border_def)
  qed
  then show ?thesis using res d3 unfolding w_def h_def by blast
qed

lemma wf_E2_image: "wf_image E2_image"
  by (simp add: wf_image_def E2_image_def maxAlloc_def)

lemma Get_of_CalculateCosts:
  assumes "wf_image img" and r: "in_raster (int (Dx img)) (int (Dy img)) x y"
  shows "Get_of (CalculateCosts rnd img channel) x y =
           Inr (if on_border (int (Dx img)) (int (Dy img)) x y then Finite MaxFloat64
                else Finite (pixel_cost rnd img x y channel))"
proof -
  from CalculateCosts_ok [of img rnd channel] assms(1)
  obtain c where c: "CalculateCosts rnd img channel = Inr c"
    and d: "cm_dims (int (Dx img)) (int (Dy img)) c"
    and v: "\<And>x y. in_raster (int (Dx img)) (int (Dy img)) x y \<Longrightarrow>
              cost_at c x y =
                (if on_border (int (Dx img)) (int (Dy img)) x y then Finite MaxFloat64
                 else Finite (pixel_cost rnd img x y channel))"
    by (auto simp: wf_image_def)
  have "CostMap_Get c x y = Inr (cost_at c x y)"
    using raster_index_bounds [OF r] d
    by (simp add: CostMap_Get_def cost_at_def cm_dims_def Let_def)
  then show ?thesis using c v [OF r] by (simp add: Get_of_def)
qed

text \<open>
  C7 (amended). \<open>CalculateCosts\<close> assigns \<open>math.MaxFloat64\<close>, the largest finite \<open>float64\<close>,
  to every border pixel (\<open>x = 0\<close>, \<open>x = W - 1\<close>, \<open>y = 0\<close> or \<open>y = H - 1\<close>) of a raster of
  positive dimensions, whatever the channel and the rounding; so it does at \<open>(0,0)\<close> on the
  10 by 10 image of scenario E2.
\<close>

theorem CalculateCosts_border:
  "wf_image img \<Longrightarrow> in_raster (int (Dx img)) (int (Dy img)) x y \<Longrightarrow>
   x = 0 \<or> x = int (Dx img) - 1 \<or> y = 0 \<or> y = int (Dy img) - 1 \<Longrightarrow>
     Get_of (CalculateCosts rnd img channel) x y = Inr (Finite MaxFloat64)"
  by (simp add: Get_of_CalculateCosts on_border_def)

theorem CalculateCosts_border_witness:
  "wf_image E2_image \<and> in_raster (int (Dx E2_image)) (int (Dy E2_image)) 9 3
   \<and> (9::int) = int (Dx E2_image) - 1
   \<and> Get_of (CalculateCosts exact E2_image 1) 9 3 = Inr (Finite MaxFloat64)
   \<and> Get_of (CalculateCosts exact E2_image 1) 0 0 = Inr (Finite MaxFloat64)"
  using CalculateCosts_border [of E2_image 9 3 exact 1]
    CalculateCosts_border [of E2_image 0 0 exact 1] wf_E2_image
  by (simp add: in_raster_def E2_image_def)

text \<open>
  C7 as stated fails: the cost of the border pixel \<open>(0,0)\<close> of the image of scenario E2 is
  not \<open>+\<infinity>\<close>; it is the finite \<open>math.MaxFloat64\<close>, as \<open>TestCostMapCalculation\<close> expects.
\<close>

theorem CalculateCosts_border_not_infinite:
  "Get_of (CalculateCosts exact E2_image 1) 0 0 \<noteq> Inr PosInf"
  using Get_of_CalculateCosts [of E2_image 0 0 exact 1] wf_E2_image
  by (simp add: in_raster_def E2_image_def on_border_def)

lemma getChannelValue_reference:
  "getChannelValue img x y 1 = of_int (reference_channel img x y)"
  by (simp add: getChannelValue_def reference_channel_def Let_def)

lemma reference_channel_bounds:
  "0 \<le> reference_channel img x y" "reference_channel img x y \<le> 255"
  using uint_lt2p [of "Green (RGBAAt img x y)"]
  by (simp_all add: reference_channel_def)

lemma sobel_kernels_int:
  assumes "i \<in> {-1, 0, 1}" "j \<in> {-1, 0, 1}"
  shows "sobelX ! nat (i + 1) ! nat (j + 1) = of_int (spec_Kx ! nat (i + 1) ! nat (j + 1))"
    and "sobelY ! nat (i + 1) ! nat (j + 1) = of_int (spec_Ky ! nat (i + 1) ! nat (j + 1))"
    and "\<bar>spec_Kx ! nat (i + 1) ! nat (j + 1)\<bar> \<le> 2"
    and "\<bar>spec_Ky ! nat (i + 1) ! nat (j + 1)\<bar> \<le> 2"
  using assms by (auto simp: sobelX_def sobelY_def spec_Kx_def spec_Ky_def)

lemma exact_on_intsD: "exact_on_ints rnd \<Longrightarrow> \<bar>n\<bar> \<le> 2 ^ 53 \<Longrightarrow> rnd (of_int n) = of_int n"
  by (simp add: exact_on_ints_def)

lemma product_bound:
  assumes "0 \<le> (r::int)" "r \<le> 255" "\<bar>k\<bar> \<le> 2"
  shows "\<bar>r * k\<bar> \<le> 510"
proof -
  have "\<bar>r * k\<bar> = r * \<bar>k\<bar>" using assms(1) by (simp add: abs_mult)
  also have "\<dots> \<le> 255 * 2" using assms by (intro mult_mono) auto
  finally show ?thesis by simp
qed

lemma accumulate_exact:
  assumes e: "exact_on_ints rnd" and a: "\<bar>a\<bar> \<le> 5000"
    and r: "0 \<le> (r::int)" "r \<le> 255" and k: "\<bar>k\<bar> \<le> 2"
  shows "rnd (of_int a + rnd (of_int r * of_int k)) = of_int (a + r * k)"
proof -
  have p: "\<bar>r * k\<bar> \<le> 510" by (rule product_bound [OF r k])
  then have "rnd (of_int r * of_int k) = of_int (r * k)"
    using exact_on_intsD [OF e, of "r * k"] by simp
  moreover have "\<bar>a + r * k\<bar> \<le> 2 ^ 53" using a p by simp
  ultimately show ?thesis
    using exact_on_intsD [OF e, of "a + r * k"] by simp
qed

lemma sobel_step_exact:
  assumes e: "exact_on_ints rnd" and a: "\<bar>a\<bar> \<le> 5000" and b: "\<bar>b\<bar> \<le> 5000"
    and i: "i \<in> {-1, 0, 1}" and j: "j \<in> {-1, 0, 1}"
  shows "sobel_step rnd img x y 1 i j (of_int a, of_int b) =
           (of_int (a + reference_channel img (x + i) (y + j) * spec_Kx ! nat (i + 1) ! nat (j + 1)),
            of_int (b + reference_channel img (x + i) (y + j) * spec_Ky ! nat (i + 1) ! nat (j + 1)))"
  using accumulate_exact [OF e a reference_channel_bounds sobel_kernels_int(3) [OF i j]]
    accumulate_exact [OF e b reference_channel_bounds sobel_kernels_int(4) [OF i j]]
  by (simp add: sobel_step_def Let_def getChannelValue_reference sobel_kernels_int(1,2) [OF i j])

lemma sobel_steps_exact:
  assumes e: "exact_on_ints rnd"
    and o: "set offs \<subseteq> {-1, 0, 1} \<times> {-1, 0, 1}"
    and a: "\<bar>a\<bar> + 510 * int (length offs) \<le> 5000"
    and b: "\<bar>b\<bar> + 510 * int (length offs) \<le> 5000"
  shows "fold (\<lambda>(i, j). sobel_step rnd img x y 1 i j) offs (of_int a, of_int b) =
           (of_int (a + (\<Sum>(i, j)\<leftarrow>offs.
                      reference_channel img (x + i) (y + j) * spec_Kx ! nat (i + 1) ! nat (j + 1))),
            of_int (b + (\<Sum>(i, j)\<leftarrow>offs.
                      reference_channel img (x + i) (y + j) * spec_Ky ! nat (i + 1) ! nat (j + 1))))"
  using o a b
proof (induction offs arbitrary: a b)
  case Nil
  then show ?case by simp
next
  case (Cons p offs)
  obtain i j where p: "p = (i, j)" by (cases p)
  have i: "i \<in> {-1, 0, 1}" and j: "j \<in> {-1, 0, 1}" using Cons.prems(1) p by auto
  define a' where "a' = a + reference_channel img (x + i) (y + j) * spec_Kx ! nat (i + 1) ! nat (j + 1)"
  define b' where "b' = b + reference_channel img (x + i) (y + j) * spec_Ky ! nat (i + 1) ! nat (j + 1)"
  have "\<bar>a' - a\<bar> \<le> 510" "\<bar>b' - b\<bar> \<le> 510"
    using product_bound [OF reference_channel_bounds sobel_kernels_int(3) [OF i j]]
      product_bound [OF reference_channel_bounds sobel_kernels_int(4) [OF i j]]
    by (simp_all add: a'_def b'_def)
  then have a': "\<bar>a'\<bar> + 510 * int (length offs) \<le> 5000"
    and b': "\<bar>b'\<bar> + 510 * int (length offs) \<le> 5000"
    using Cons.prems(2,3) by auto
  have s: "sobel_step rnd img x y 1 i j (of_int a, of_int b) = (of_int a', of_int b')"
    unfolding a'_def b'_def
    by (rule sobel_step_exact [OF e _ _ i j]) (use Cons.prems(2,3) in auto)
  have "set offs \<subseteq> {-1, 0, 1} \<times> {-1, 0, 1}" using Cons.prems(1) by auto
  from Cons.IH [OF this a' b'] s show ?case
    by (simp add: p a'_def b'_def add.assoc)
qed

lemma sobel_gradients_exact:
  assumes e: "exact_on_ints rnd"
  shows "sobel_gradients rnd img x y 1 =
           (of_int (spec_gx (reference_channel img) x y),
            of_int (spec_gy (reference_channel img) x y))"
proof -
  define offs :: "(int \<times> int) list" where
    "offs = [(-1, -1), (-1, 0), (-1, 1), (0, -1), (0, 0), (0, 1), (1, -1), (1, 0), (1, 1)]"
  have "sobel_gradients rnd img x y 1 =
          fold (\<lambda>(i, j). sobel_step rnd img x y 1 i j) offs (of_int 0, of_int 0)"
    by (simp add: sobel_gradients_def offs_def)
  also have "\<dots> =
     (of_int (0 + (\<Sum>(i, j)\<leftarrow>offs.
                reference_channel img (x + i) (y + j) * spec_Kx ! nat (i + 1) ! nat (j + 1))),
      of_int (0 + (\<Sum>(i, j)\<leftarrow>offs.
                reference_channel img (x + i) (y + j) * spec_Ky ! nat (i + 1) ! nat (j + 1))))"
    by (rule sobel_steps_exact [OF e]) (simp_all add: offs_def)
  also have "\<dots> = (of_int (spec_gx (reference_channel img) x y),
                     of_int (spec_gy (reference_channel img) x y))"
    by (simp add: offs_def spec_gx_def spec_gy_def)
  finally show ?thesis .
qed

lemma spec_gradient_bounds:
  assumes "\<And>a b. 0 \<le> Rh a b \<and> Rh a b \<le> (255::int)"
  shows "\<bar>spec_gx Rh x y\<bar> \<le> 1020" and "\<bar>spec_gy Rh x y\<bar> \<le> 1020"
proof -
  note b = assms [of "x - 1" "y - 1"] assms [of "x - 1" y] assms [of "x - 1" "y + 1"]
    assms [of x "y - 1"] assms [of x "y + 1"]
    assms [of "x + 1" "y - 1"] assms [of "x + 1" y] assms [of "x + 1" "y + 1"]
  show "\<bar>spec_gx Rh x y\<bar> \<le> 1020"
    using b unfolding spec_gx_def spec_Kx_def by simp linarith
  show "\<bar>spec_gy Rh x y\<bar> \<le> 1020"
    using b unfolding spec_gy_def spec_Ky_def by simp linarith
qed

lemma square_exact:
  assumes e: "exact_on_ints rnd" and g: "\<bar>g\<bar> \<le> (1020::int)"
  shows "rnd (of_int g * of_int g) = of_int (g\<^sup>2)" and "g\<^sup>2 \<le> 1040400"
proof -
  have "g\<^sup>2 = \<bar>g\<bar> * \<bar>g\<bar>" by (simp add: power2_eq_square)
  also have "\<dots> \<le> 1020 * 1020" using g by (intro mult_mono) auto
  finally show sq: "g\<^sup>2 \<le> 1040400" by simp
  then have "\<bar>g\<^sup>2\<bar> \<le> 2 ^ 53" by simp
  from exact_on_intsD [OF e this] show "rnd (of_int g * of_int g) = of_int (g\<^sup>2)"
    by (simp add: power2_eq_square)
qed

lemma pixel_cost_spec:
  assumes e: "exact_on_ints rnd"
  shows "pixel_cost rnd img x y 1 = spec_cost rnd (reference_channel img) x y"
proof -
  define gx gy where "gx = spec_gx (reference_channel img) x y"
    and "gy = spec_gy (reference_channel img) x y"
  have bx: "\<bar>gx\<bar> \<le> 1020" and by': "\<bar>gy\<bar> \<le> 1020"
    unfolding gx_def gy_def
    by (rule spec_gradient_bounds; simp add: reference_channel_bounds)+
  have "\<bar>gx\<^sup>2 + gy\<^sup>2\<bar> \<le> 2 ^ 53"
    using square_exact(2) [OF e bx] square_exact(2) [OF e by'] by simp
  from exact_on_intsD [OF e this]
  have "rnd (rnd (of_int gx * of_int gx) + rnd (of_int gy * of_int gy)) = of_int (gx\<^sup>2 + gy\<^sup>2)"
    by (simp add: square_exact(1) [OF e bx] square_exact(1) [OF e by'])
  then show ?thesis
    by (simp add: pixel_cost_def spec_cost_def Let_def sobel_gradients_exact [OF e]
        flip: gx_def gy_def)
qed

text \<open>\<open>CalculateCosts\<close> on Green reads nothing of the raster but its dimensions and Green.\<close>

lemma CalculateCosts_reference_only:
  assumes "Dx img' = Dx img" and "Dy img' = Dy img"
    and g: "\<And>x y. Green (RGBAAt img' x y) = Green (RGBAAt img x y)"
  shows "CalculateCosts rnd img' 1 = CalculateCosts rnd img 1"
proof -
  have "getChannelValue img' x y 1 = getChannelValue img x y 1" for x y
    by (simp add: getChannelValue_def Let_def g)
  then have "sobel_step rnd img' x y 1 = sobel_step rnd img x y 1" for x y
    by (intro ext) (simp add: sobel_step_def)
  then have "sobel_gradients rnd img' x y 1 = sobel_gradients rnd img x y 1" for x y
    by (simp add: sobel_gradients_def)
  then have "pixel_cost rnd img' x y 1 = pixel_cost rnd img x y 1" for x y
    by (simp add: pixel_cost_def)
  then show ?thesis
    by (simp add: CalculateCosts_def assms(1,2))
qed

text \<open>
  C8. At every interior pixel (\<open>1 \<le> x < W - 1\<close>, \<open>1 \<le> y < H - 1\<close>), \<open>CalculateCosts\<close> on the
  reference channel returns the cost \<open>1 / (sqrt (gx^2 + gy^2) + epsilon)\<close> of the spec, where
  \<open>gx\<close> and \<open>gy\<close> are the Sobel sums of the spec over the reference channel. The sums that
  the loops accumulate are integers, which a \<open>float64\<close> holds exactly, so they are the
  sums of the spec in whatever order; the square root, the addition of \<open>epsilon\<close> and the
  division are rounded once each. The result is a function of the dimensions and the
  reference channel alone: two rasters that agree on them have the same cost map.
\<close>

theorem CalculateCosts_interior:
  "wf_image img \<Longrightarrow> exact_on_ints rnd \<Longrightarrow> interior (int (Dx img)) (int (Dy img)) x y \<Longrightarrow>
     Get_of (CalculateCosts rnd img 1) x y
       = Inr (Finite (spec_cost rnd (reference_channel img) x y))
     \<and> (\<forall>img'. Dx img' = Dx img \<and> Dy img' = Dy img
            \<and> (\<forall>a b. reference_channel img' a b = reference_channel img a b)
          \<longrightarrow> CalculateCosts rnd img' 1 = CalculateCosts rnd img 1)"
proof -
  assume wf: "wf_image img" and e: "exact_on_ints rnd"
    and i: "interior (int (Dx img)) (int (Dy img)) x y"
  have r: "in_raster (int (Dx img)) (int (Dy img)) x y"
    and nb: "\<not> on_border (int (Dx img)) (int (Dy img)) x y"
    using i by (auto simp: interior_def in_raster_def on_border_def)
  have 1: "Get_of (CalculateCosts rnd img 1) x y
       = Inr (Finite (spec_cost rnd (reference_channel img) x y))"
    using Get_of_CalculateCosts [OF wf r, of rnd 1] nb by (simp add: pixel_cost_spec [OF e])
  have 2: "CalculateCosts rnd img' 1 = CalculateCosts rnd img 1"
    if "Dx img' = Dx img" "Dy img' = Dy img"
      "\<forall>a b. reference_channel img' a b = reference_channel img a b" for img'
    by (rule CalculateCosts_reference_only)
      (use that in \<open>simp_all add: reference_channel_def flip: word_uint_eq_iff\<close>)
  show ?thesis using 1 2 by blast
qed

lemma exact_on_ints_exact: "exact_on_ints exact"
  by (simp add: exact_on_ints_def exact_def)

lemma E2_reference:
  "reference_channel E2_image a b =
     (if 0 \<le> a \<and> a < 10 \<and> 0 \<le> b \<and> b < 10 then (if a < 5 then 0 else 255) else 0)"
proof (cases "0 \<le> a \<and> a < 10 \<and> 0 \<le> b \<and> b < 10")
  case True
  then have lt: "nat (b * 10 + a) < 100" by linarith
  have "nat a < 10" using True by linarith
  then have "nat (b * 10 + a) mod 10 = nat a"
    using True by (simp add: nat_add_distrib nat_mult_distrib)
  moreover have "(nat a < 5) = (a < 5)" using True by linarith
  ultimately show ?thesis
    using True lt by (simp add: reference_channel_def RGBAAt_def E2_image_def E2_pixel_def)
next
  case False
  then have "RGBAAt E2_image a b = \<lparr>Red = 0, Green = 0, Blue = 0, Alpha = 0\<rparr>"
    unfolding RGBAAt_def E2_image_def by (simp only: Image.simps) auto
  with False show ?thesis
    by (simp add: reference_channel_def)
qed

lemma E2_red_reference: "reference_channel E2_red_image a b = reference_channel E2_image a b"
proof -
  have "0 \<le> a \<and> a < 10 \<and> 0 \<le> b \<and> b < 10 \<Longrightarrow> nat (b * 10 + a) < 100"
    by linarith
  then show ?thesis
    by (auto simp: reference_channel_def RGBAAt_def E2_image_def E2_red_image_def)
qed

lemma E2_gradients:
  "spec_gx (reference_channel E2_image) 4 5 = 0" "spec_gy (reference_channel E2_image) 4 5 = 1020"
  by (simp_all add: spec_gx_def spec_gy_def spec_Kx_def spec_Ky_def E2_reference)

lemma E2_cost_4_5: "spec_cost exact (reference_channel E2_image) 4 5 = 1 / (1020 + 1 / 10 ^ 6)"
proof -
  have "sqrt ((1020::real)\<^sup>2) = 1020" by simp
  then have "sqrt (1040400::real) = 1020" by simp
  then show ?thesis
    by (simp add: spec_cost_def E2_gradients exact_def epsilon_def)
qed

theorem CalculateCosts_interior_witness:
  "wf_image E2_image \<and> exact_on_ints exact
   \<and> interior (int (Dx E2_image)) (int (Dy E2_image)) 4 5
   \<and> Get_of (CalculateCosts exact E2_image 1) 4 5 = Inr (Finite (1 / (1020 + 1 / 10 ^ 6)))
   \<and> Dx E2_red_image = Dx E2_image \<and> Dy E2_red_image = Dy E2_image
   \<and> CalculateCosts exact E2_red_image 1 = CalculateCosts exact E2_image 1"
proof -
  have i: "interior (int (Dx E2_image)) (int (Dy E2_image)) 4 5"
    by (simp add: interior_def E2_image_def)
  have d: "Dx E2_red_image = Dx E2_image" "Dy E2_red_image = Dy E2_image"
    by (simp_all add: E2_image_def E2_red_image_def)
  from CalculateCosts_interior [OF wf_E2_image exact_on_ints_exact i]
  show ?thesis
    using wf_E2_image exact_on_ints_exact i d E2_red_reference
    by (simp only: E2_cost_4_5) blast
qed

section \<open>Properties of the loops that fill a slice\<close>

lemma collect_map:
  assumes "\<And>i. i \<in> set idxs \<Longrightarrow> f i = Inr (g i)"
  shows "collect f idxs = Inr (map g idxs)"
  using assms by (induction idxs) auto

lemma collect_Inr:
  assumes "collect f idxs = Inr vs"
  shows "length vs = length idxs \<and> (\<forall>k < length idxs. f (idxs ! k) = Inr (vs ! k))"
  using assms
proof (induction idxs arbitrary: vs)
  case Nil
  then show ?case by simp
next
  case (Cons i rest)
  from Cons.prems obtain v vs' where fi: "f i = Inr v" and r: "collect f rest = Inr vs'"
    and vs: "vs = v # vs'"
    by (auto split: sum.splits)
  from Cons.IH [OF r] fi vs show ?case
    by (auto simp: nth_Cons split: nat.splits)
qed

lemma raster_coords_eq:
  "raster_coords img = map (\<lambda>i. (int (i mod Dx img), int (i div Dx img))) [0..<Dx img * Dy img]"
proof -
  define w where "w = Dx img"
  have "concat (map (\<lambda>y. map (\<lambda>x. (int x, int y)) [0..<w]) [0..<h])
          = map (\<lambda>i. (int (i mod w), int (i div w))) [0..<w * h]" for h
  proof (induction h)
    case 0
    then show ?case by simp
  next
    case (Suc h)
    have "map (\<lambda>i. (int (i mod w), int (i div w))) [w * h..<w * h + w]
            = map (\<lambda>x. (int x, int h)) [0..<w]"
      by (rule nth_equalityI) (auto simp: nth_append)
    moreover have "[0..<w * Suc h] = [0..<w * h] @ [w * h..<w * h + w]"
      using upt_add_eq_append [of 0 "w * h" w] by (simp add: add.commute)
    ultimately show ?case
      using Suc by (simp del: mult_Suc_right)
  qed
  then show ?thesis by (simp add: raster_coords_def w_def)
qed

lemma length_raster_coords: "length (raster_coords img) = Dx img * Dy img"
  by (simp add: raster_coords_eq)

lemma RGBAAt_raster_coords:
  assumes "wf_image img" and "i < Dx img * Dy img"
  shows "(\<lambda>(x, y). RGBAAt img x y) (raster_coords img ! i) = Pix img ! i"
proof -
  have w: "0 < Dx img" using assms(1) by (simp add: wf_image_def)
  have "i div Dx img < Dy img"
    using assms(2) w by (simp add: less_mult_imp_div_less mult.commute)
  moreover have "i mod Dx img < Dx img" using w by simp
  moreover have "nat (int (i div Dx img) * int (Dx img) + int (i mod Dx img)) = i"
    by (simp flip: of_nat_mult of_nat_add)
  ultimately show ?thesis
    using assms(2) by (simp add: raster_coords_eq RGBAAt_def)
qed

lemma red_pixels_eq:
  assumes "wf_image img"
  shows "red_pixels img = map Red (Pix img)"
proof (rule nth_equalityI)
  show "length (red_pixels img) = length (map Red (Pix img))"
    using assms by (simp add: red_pixels_def length_raster_coords wf_image_def)
  fix i assume "i < length (red_pixels img)"
  then have i: "i < Dx img * Dy img"
    by (simp add: red_pixels_def length_raster_coords)
  then have "i < length (Pix img)" using assms by (simp add: wf_image_def)
  then show "red_pixels img ! i = map Red (Pix img) ! i"
    using RGBAAt_raster_coords [OF assms i] i
    by (simp add: red_pixels_def length_raster_coords split: prod.splits)
qed

lemma result_pixels_Inr:
  assumes wf: "wf_image img" and r: "result_pixels img m = Inr pix"
  shows "length pix = Dx img * Dy img"
    and "i < Dx img * Dy img \<Longrightarrow> i < length m \<and> pix ! i = (Pix img ! i)\<lparr>Red := m ! i\<rparr>"
proof -
  let ?n = "Dx img * Dy img"
  let ?f = "\<lambda>(idx, (x, y)).
                if idx < length m
                then Inr ((RGBAAt img x y)\<lparr>Red := m ! idx\<rparr>)
                else Inl Panic"
  let ?idxs = "zip [0..<length (raster_coords img)] (raster_coords img)"
  from collect_Inr [OF r [unfolded result_pixels_def]]
  have len: "length pix = length ?idxs"
    and each: "\<And>k. k < length ?idxs \<Longrightarrow> ?f (?idxs ! k) = Inr (pix ! k)"
    by auto
  show "length pix = ?n" using len by (simp add: length_raster_coords)
  assume i: "i < ?n"
  then have k: "i < length ?idxs" by (simp add: length_raster_coords)
  have z: "?idxs ! i = (i, raster_coords img ! i)"
    using i by (simp add: length_raster_coords)
  obtain x y where xy: "raster_coords img ! i = (x, y)" by (cases "raster_coords img ! i")
  have p: "RGBAAt img x y = Pix img ! i"
    using RGBAAt_raster_coords [OF wf i] xy by simp
  from each [OF k] show "i < length m \<and> pix ! i = (Pix img ! i)\<lparr>Red := m ! i\<rparr>"
    by (auto simp: z xy p split: if_splits)
qed

lemma result_pixels_ok:
  assumes wf: "wf_image img" and m: "Dx img * Dy img \<le> length m"
  shows "result_pixels img m =
           Inr (map (\<lambda>i. (Pix img ! i)\<lparr>Red := m ! i\<rparr>) [0..<Dx img * Dy img])"
proof -
  let ?n = "Dx img * Dy img"
  have "result_pixels img m =
          Inr (map (\<lambda>(idx, (x, y)). (RGBAAt img x y)\<lparr>Red := m ! idx\<rparr>)
                 (zip [0..<length (raster_coords img)] (raster_coords img)))"
    unfolding result_pixels_def
    by (rule collect_map) (use m in \<open>auto simp: length_raster_coords dest!: set_zip_leftD\<close>)
  also have "map (\<lambda>(idx, (x, y)). (RGBAAt img x y)\<lparr>Red := m ! idx\<rparr>)
                 (zip [0..<length (raster_coords img)] (raster_coords img))
             = map (\<lambda>i. (Pix img ! i)\<lparr>Red := m ! i\<rparr>) [0..<?n]"
  proof (rule nth_equalityI)
    show "length (map (\<lambda>(idx, (x, y)). (RGBAAt img x y)\<lparr>Red := m ! idx\<rparr>)
                 (zip [0..<length (raster_coords img)] (raster_coords img)))
          = length (map (\<lambda>i. (Pix img ! i)\<lparr>Red := m ! i\<rparr>) [0..<?n])"
      by (simp add: length_raster_coords)
    fix i assume "i < length (map (\<lambda>(idx, (x, y)). (RGBAAt img x y)\<lparr>Red := m ! idx\<rparr>)
                 (zip [0..<length (raster_coords img)] (raster_coords img)))"
    then have i: "i < ?n" by (simp add: length_raster_coords)
    obtain x y where xy: "raster_coords img ! i = (x, y)" by (cases "raster_coords img ! i")
    have p: "RGBAAt img x y = Pix img ! i"
      using RGBAAt_raster_coords [OF wf i] xy by simp
    show "map (\<lambda>(idx, (x, y)). (RGBAAt img x y)\<lparr>Red := m ! idx\<rparr>)
                 (zip [0..<length (raster_coords img)] (raster_coords img)) ! i
          = map (\<lambda>i. (Pix img ! i)\<lparr>Red := m ! i\<rparr>) [0..<?n] ! i"
      using i by (simp add: length_raster_coords xy p)
  qed
  finally show ?thesis .
qed

section \<open>Properties of the embedding\<close>

lemma message_bit_cases: "message_bit m k = 0 \<or> message_bit m k = 1"
  unfolding message_bit_def by (rule byte_lsb_cases)

text \<open>\<open>GetOptimalChanges\<close> with the fresh copy of the input in place.\<close>

lemma GetOptimalChanges_copy:
  assumes "img < length h"
  shows "GetOptimalChanges srt h img message cm rs =
     (if length message * 8 > length (h ! img) then (Inr (length h), h @ [h ! img], rs)
      else
        (case sorted_pixel_costs srt (length (h ! img)) cm of
           Inl e \<Rightarrow> (Inl e, h @ [h ! img], rs)
         | Inr allPixelCosts \<Rightarrow>
             (case embed_loop (embed_bit img (length h) message cm allPixelCosts)
                     [0..<length message * 8] (h @ [h ! img], rs) of
                (Some e, h2, rs') \<Rightarrow> (Inl e, h2, rs')
              | (None, h2, rs') \<Rightarrow> (Inr (length h), h2, rs'))))"
proof -
  have c: "heap_copy (snd (heap_make h (length (h ! img)))) (length h) img = h @ [h ! img]"
    and f: "fst (heap_make h (length (h ! img))) = length h"
    and l: "length ((h @ [h ! img]) ! img) = length (h ! img)"
    using assms by (simp_all add: heap_make_def heap_copy_def Let_def nth_append)
  show ?thesis
    unfolding GetOptimalChanges_def Let_def f c l
    by (auto split: sum.splits prod.splits option.splits)
qed

lemma embed_bit_frame:
  assumes "embed_bit img result message cm spc k (h, rs) = (e, h', rs')"
  shows "length h' = length h \<and> (\<forall>a. a \<noteq> result \<longrightarrow> h' ! a = h ! a)"
  using assms by (auto simp: embed_bit_def Let_def split: if_splits)

lemma embed_loop_frame:
  assumes "embed_loop (embed_bit img result message cm spc) ks (h, rs) = (e, h', rs')"
  shows "length h' = length h \<and> (\<forall>a. a \<noteq> result \<longrightarrow> h' ! a = h ! a)"
  using assms
proof (induction ks arbitrary: h rs)
  case Nil
  then show ?case by simp
next
  case (Cons k ks)
  obtain e1 h1 rs1 where b: "embed_bit img result message cm spc k (h, rs) = (e1, h1, rs1)"
    by (cases "embed_bit img result message cm spc k (h, rs)") auto
  note f = embed_bit_frame [OF b]
  show ?case
  proof (cases e1)
    case None
    with Cons.prems b
    have "embed_loop (embed_bit img result message cm spc) ks (h1, rs1) = (e, h', rs')"
      by simp
    from Cons.IH [OF this] f show ?thesis by simp
  next
    case (Some err)
    with Cons.prems b have "h' = h1" by simp
    with f show ?thesis by simp
  qed
qed

lemma GetOptimalChanges_frame:
  assumes i: "img < length h"
    and g: "GetOptimalChanges srt h img message cm rs = (res, h', rs')"
  shows "length h' = Suc (length h) \<and> (\<forall>a < length h. h' ! a = h ! a)"
proof -
  let ?h1 = "h @ [h ! img]"
  have h1: "length ?h1 = Suc (length h) \<and> (\<forall>a < length h. ?h1 ! a = h ! a)"
    by (simp add: nth_append)
  note g' = g [unfolded GetOptimalChanges_copy [OF i]]
  show ?thesis
  proof (cases "length message * 8 > length (h ! img)")
    case True
    then have "h' = ?h1" using g' by simp
    then show ?thesis using h1 by simp
  next
    case False
    show ?thesis
    proof (cases "sorted_pixel_costs srt (length (h ! img)) cm")
      case (Inl err)
      then have "h' = ?h1" using g' False by simp
      then show ?thesis using h1 by simp
    next
      case (Inr spc)
      obtain e h2 rs2 where l: "embed_loop (embed_bit img (length h) message cm spc)
                        [0..<length message * 8] (?h1, rs) = (e, h2, rs2)"
        by (cases "embed_loop (embed_bit img (length h) message cm spc)
                        [0..<length message * 8] (?h1, rs)") auto
      have "h' = h2"
        using g' False Inr l by (auto split: option.splits)
      with embed_loop_frame [OF l] h1 show ?thesis by auto
    qed
  qed
qed

text \<open>
  C10. When the message needs more bits than there are pixels, \<open>GetOptimalChanges\<close>
  returns a fresh slice that holds a copy of the input, the store otherwise and the
  random source as they were, and no error. In every case (a panic included) no slice
  that existed before the call, the input among them, is changed: only the fresh slice
  is written.
\<close>

theorem GetOptimalChanges_input_unmodified:
  "img < length h \<Longrightarrow>
     (case GetOptimalChanges srt h img message cm rs of
        (res, h', rs') \<Rightarrow>
          take (length h) h' = h \<and> h' ! img = h ! img
          \<and> (length message * 8 > length (h ! img) \<longrightarrow>
                res = Inr (length h) \<and> h' = h @ [h ! img] \<and> rs' = rs))"
proof -
  assume i: "img < length h"
  obtain res h' rs' where g: "GetOptimalChanges srt h img message cm rs = (res, h', rs')"
    by (cases "GetOptimalChanges srt h img message cm rs") auto
  from GetOptimalChanges_frame [OF i g]
  have len: "length h' = Suc (length h)" and same: "\<And>a. a < length h \<Longrightarrow> h' ! a = h ! a"
    by auto
  have "take (length h) h' = h"
    by (rule nth_equalityI) (use len same in auto)
  moreover have "h' ! img = h ! img" using same i by simp
  moreover have "res = Inr (length h) \<and> h' = h @ [h ! img] \<and> rs' = rs"
    if "length message * 8 > length (h ! img)"
    using g that unfolding GetOptimalChanges_copy [OF i] by simp
  ultimately show ?thesis using g by simp
qed

theorem GetOptimalChanges_input_unmodified_witness:
  "(0::nat) < length [[2, 3 :: byte]]
   \<and> length [255 :: byte] * 8 > length ([[2, 3 :: byte]] ! 0)
   \<and> GetOptimalChanges insertion_sort [[2, 3]] 0 [255] \<lparr>costs = [], width = 0, height = 0\<rparr>
        (\<lambda>n. RandErr) = (Inr 1, [[2, 3], [2, 3]], \<lambda>n. RandErr)"
  using GetOptimalChanges_input_unmodified
    [where img = 0 and h = "[[2, 3]]" and message = "[255]" and srt = insertion_sort
       and cm = "\<lparr>costs = [], width = 0, height = 0\<rparr>" and rs = "\<lambda>n. RandErr"]
  by (auto split: prod.splits)

section \<open>Sorts that keep the promises of the library\<close>

lemma mset_insert_by: "mset (insert_by before x ys) = add_mset x (mset ys)"
  by (induction ys) auto

lemma mset_fold_insert_by: "mset (fold (insert_by before) xs acc) = mset xs + mset acc"
  by (induction xs arbitrary: acc) (auto simp: mset_insert_by)

lemma set_insert_by: "set (insert_by before x ys) = insert x (set ys)"
  by (induction ys) auto

lemma sort_permutes_insertion_sort: "sort_permutes insertion_sort"
  by (simp add: sort_permutes_def insertion_sort_def mset_fold_insert_by)

lemma orders_subset: "orders lt S \<Longrightarrow> T \<subseteq> S \<Longrightarrow> orders lt T"
  unfolding orders_def by blast

lemma ordersD:
  assumes "orders lt S" "a \<in> S" "b \<in> S" "c \<in> S"
  shows "\<not> lt a a" and "lt a b \<Longrightarrow> lt b c \<Longrightarrow> lt a c"
    and "\<not> lt a b \<Longrightarrow> \<not> lt b c \<Longrightarrow> \<not> lt a c"
  using assms unfolding orders_def by blast+

lemma orders_asym:
  assumes "orders lt S" "a \<in> S" "b \<in> S" "lt a b"
  shows "\<not> lt b a"
  using ordersD(1) [OF assms(1) assms(2) assms(2) assms(2)]
    ordersD(2) [OF assms(1) assms(2) assms(3) assms(2)] assms(4) by blast

lemma sorted_insert_by:
  assumes o: "orders lt (insert x (set ys))"
    and s: "sorted_wrt (\<lambda>a b. \<not> lt b a) ys"
  shows "sorted_wrt (\<lambda>a b. \<not> lt b a) (insert_by lt x ys)"
  using o s
proof (induction ys)
  case Nil
  then show ?case by simp
next
  case (Cons y ys)
  have o': "orders lt (insert x (set ys))"
    by (rule orders_subset [OF Cons.prems(1)]) auto
  have sy: "sorted_wrt (\<lambda>a b. \<not> lt b a) ys" and ay: "\<forall>z\<in>set ys. \<not> lt z y"
    using Cons.prems(2) by auto
  show ?case
  proof (cases "lt x y")
    case True
    have "\<not> lt y x"
      using orders_asym [OF Cons.prems(1), of x y] True by auto
    moreover have "\<not> lt z x" if z: "z \<in> set ys" for z
    proof
      assume zx: "lt z x"
      have "lt z y"
        using ordersD(2) [OF Cons.prems(1), of z x y] z zx True by auto
      with ay z show False by blast
    qed
    ultimately show ?thesis using True Cons.prems(2) by auto
  next
    case False
    then show ?thesis
      using Cons.IH [OF o' sy] ay by (auto simp: set_insert_by)
  qed
qed

lemma sorted_fold_insert_by:
  assumes "orders lt (set xs \<union> set acc)" and "sorted_wrt (\<lambda>a b. \<not> lt b a) acc"
  shows "sorted_wrt (\<lambda>a b. \<not> lt b a) (fold (insert_by lt) xs acc)"
  using assms
proof (induction xs arbitrary: acc)
  case Nil
  then show ?case by simp
next
  case (Cons x xs)
  have "sorted_wrt (\<lambda>a b. \<not> lt b a) (insert_by lt x acc)"
    by (rule sorted_insert_by [OF orders_subset [OF Cons.prems(1)] Cons.prems(2)]) auto
  moreover have "orders lt (set xs \<union> set (insert_by lt x acc))"
    by (rule orders_subset [OF Cons.prems(1)]) (auto simp: set_insert_by)
  ultimately show ?case using Cons.IH by simp
qed

lemma sort_sorts_insertion_sort: "sort_sorts insertion_sort"
  unfolding sort_sorts_def insertion_sort_def
  by (auto intro!: sorted_fold_insert_by)

section \<open>Properties of the position order\<close>

lemma all_pixel_costs_ok:
  assumes "n \<le> length (costs cm)"
  shows "all_pixel_costs n cm = Inr (map (\<lambda>i. \<lparr>pos = i, cost = costs cm ! i\<rparr>) [0..<n])"
  unfolding all_pixel_costs_def by (rule collect_map) (use assms in auto)

lemma sorted_pixel_costs_ok:
  assumes "n \<le> length (costs cm)"
  shows "sorted_pixel_costs srt n cm
           = Inr (srt cost_less (map (\<lambda>i. \<lparr>pos = i, cost = costs cm ! i\<rparr>) [0..<n]))"
  by (simp add: sorted_pixel_costs_def all_pixel_costs_ok [OF assms])

text \<open>The sorted slice holds every position once, each with its cost.\<close>

lemma sorted_positions:
  fixes cm :: "CostMap" and n :: nat and srt :: sort_Slice
  assumes p: "sort_permutes srt"
  defines "spc \<equiv> srt cost_less (map (\<lambda>i. \<lparr>pos = i, cost = costs cm ! i\<rparr>) [0..<n])"
  shows "length spc = n" and "distinct (map pos spc)" and "set (map pos spc) = {0..<n}"
    and "mset (map pos spc) = mset [0..<n]"
    and "\<forall>q\<in>set spc. cost q = costs cm ! pos q"
proof -
  let ?all = "map (\<lambda>i. \<lparr>pos = i, cost = costs cm ! i\<rparr>) [0..<n]"
  have m: "mset spc = mset ?all" using p by (simp add: sort_permutes_def spc_def)
  have e: "map pos ?all = [0..<n]" by (simp add: comp_def)
  have "mset (map pos spc) = mset (map pos ?all)" by (simp only: mset_map m)
  then show mp: "mset (map pos spc) = mset [0..<n]" by (simp only: e)
  from mset_eq_length [OF m] show "length spc = n" by simp
  from mset_eq_imp_distinct_iff [OF mp] show "distinct (map pos spc)" by simp
  from mset_eq_setD [OF mp] show "set (map pos spc) = {0..<n}" by simp
  from mset_eq_setD [OF m] show "\<forall>q\<in>set spc. cost q = costs cm ! pos q" by auto
qed

lemma CalculateCosts_costs:
  assumes wf: "wf_image img"
  shows "\<exists>cm. CalculateCosts rnd img channel = Inr cm
            \<and> length (costs cm) = Dx img * Dy img
            \<and> (\<forall>i < Dx img * Dy img. \<exists>r. costs cm ! i = Finite r)"
proof -
  let ?w = "int (Dx img)" and ?h = "int (Dy img)"
  from CalculateCosts_ok [of img rnd channel] wf
  obtain c where c: "CalculateCosts rnd img channel = Inr c" and d: "cm_dims ?w ?h c"
    and v: "\<And>x y. in_raster ?w ?h x y \<Longrightarrow>
              cost_at c x y = (if on_border ?w ?h x y then Finite MaxFloat64
                               else Finite (pixel_cost rnd img x y channel))"
    by (auto simp: wf_image_def)
  have len: "length (costs c) = Dx img * Dy img"
    using d by (simp add: cm_dims_def flip: of_nat_mult)
  have "\<exists>r. costs c ! i = Finite r" if i: "i < Dx img * Dy img" for i
  proof -
    have w: "0 < Dx img" using wf by (simp add: wf_image_def)
    have "i div Dx img < Dy img"
      using i w by (simp add: less_mult_imp_div_less mult.commute)
    then have r: "in_raster ?w ?h (int (i mod Dx img)) (int (i div Dx img))"
      using w by (simp add: in_raster_def)
    have "nat (int (i div Dx img) * ?w + int (i mod Dx img)) = i"
      by (simp flip: of_nat_mult of_nat_add)
    then have "cost_at c (int (i mod Dx img)) (int (i div Dx img)) = costs c ! i"
      using d by (simp add: cost_at_def cm_dims_def)
    with v [OF r] show ?thesis by (auto split: if_splits)
  qed
  with c len show ?thesis by blast
qed

lemma orders_cost_less:
  assumes "\<forall>q\<in>S. \<exists>r. cost q = Finite r"
  shows "orders cost_less S"
  unfolding orders_def cost_less_def
proof (intro ballI)
  fix a b c assume "a \<in> S" "b \<in> S" "c \<in> S"
  then obtain ra rb rc where "cost a = Finite ra" "cost b = Finite rb" "cost c = Finite rc"
    using assms by blast
  then show "\<not> f64_less (cost a) (cost a)
       \<and> (f64_less (cost a) (cost b) \<and> f64_less (cost b) (cost c) \<longrightarrow> f64_less (cost a) (cost c))
       \<and> (\<not> f64_less (cost a) (cost b) \<and> \<not> f64_less (cost b) (cost c)
            \<longrightarrow> \<not> f64_less (cost a) (cost c))"
    by auto
qed

text \<open>
  C4 (amended). For a library sort that keeps its promises, the position order that
  encoder and decoder compute for a raster (the same function of the raster in both) is
  a permutation of all \<open>W * H\<close> pixel indices, sorted by ascending cost. Nothing is
  said on the order of positions of equal cost: it is the one \<open>sort.Slice\<close> leaves.
\<close>

theorem position_order_sorted_permutation:
  "wf_image img \<Longrightarrow> sort_permutes srt \<Longrightarrow> sort_sorts srt \<Longrightarrow>
     \<exists>cm order. CalculateCosts rnd img 1 = Inr cm
        \<and> image_position_order rnd srt img = Inr order
        \<and> mset order = mset [0..<Dx img * Dy img]
        \<and> sorted_wrt (\<lambda>i j. \<not> f64_less (costs cm ! j) (costs cm ! i)) order"
proof -
  assume wf: "wf_image img" and p: "sort_permutes srt" and s: "sort_sorts srt"
  let ?n = "Dx img * Dy img"
  from CalculateCosts_costs [OF wf, of rnd 1]
  obtain cm where cm: "CalculateCosts rnd img 1 = Inr cm" and len: "length (costs cm) = ?n"
    and fin: "\<And>i. i < ?n \<Longrightarrow> \<exists>r. costs cm ! i = Finite r"
    by blast
  let ?all = "map (\<lambda>i. \<lparr>pos = i, cost = costs cm ! i\<rparr>) [0..<?n]"
  let ?spc = "srt cost_less ?all"
  have spc: "sorted_pixel_costs srt ?n cm = Inr ?spc"
    by (rule sorted_pixel_costs_ok) (simp add: len)
  then have o: "image_position_order rnd srt img = Inr (map pos ?spc)"
    by (simp add: image_position_order_def PositionOrder_def cm)
  have "orders cost_less (set ?all)"
    by (rule orders_cost_less) (use fin in auto)
  then have A: "sorted_wrt (\<lambda>a b. \<not> cost_less b a) ?spc"
    using s by (simp add: sort_sorts_def)
  have "sorted_wrt (\<lambda>a b. \<not> f64_less (costs cm ! pos b) (costs cm ! pos a)) ?spc"
  proof (rule sorted_wrt_mono_rel [OF _ A])
    fix a b assume "a \<in> set ?spc" "b \<in> set ?spc" "\<not> cost_less b a"
    then show "\<not> f64_less (costs cm ! pos b) (costs cm ! pos a)"
      using sorted_positions(5) [OF p, of cm ?n] by (simp add: cost_less_def)
  qed
  then have "sorted_wrt (\<lambda>i j. \<not> f64_less (costs cm ! j) (costs cm ! i)) (map pos ?spc)"
    by (simp add: sorted_wrt_map)
  with cm o sorted_positions(4) [OF p, of cm ?n] show ?thesis by blast
qed

lemma two_pixels_costs:
  "CalculateCosts rnd two_pixels 1
     = Inr \<lparr>costs = [Finite MaxFloat64, Finite MaxFloat64], width = 2, height = 1\<rparr>"
proof -
  have u: "[1..(-1::int)] = []" "[0..(0::int)] = [0]" "[0..(1::int)] = [0, 1]"
    by (simp_all add: upto.simps)
  have r: "replicate 2 (Finite 0) = [Finite 0, Finite 0]"
    by (simp add: numeral_2_eq_2)
  show ?thesis
    by (simp add: CalculateCosts_def two_pixels_def NewCostMap_def set_border_def
        CostMap_Set_def Let_def u r)
qed

lemma wf_two_pixels: "wf_image two_pixels"
  by (simp add: wf_image_def two_pixels_def maxAlloc_def)

lemma two_pixels_all_costs:
  "all_pixel_costs 2 \<lparr>costs = [Finite MaxFloat64, Finite MaxFloat64], width = 2, height = 1\<rparr>
     = Inr [\<lparr>pos = 0, cost = Finite MaxFloat64\<rparr>, \<lparr>pos = 1, cost = Finite MaxFloat64\<rparr>]"
proof -
  have "[0..<2] = [0, Suc 0]" by (simp add: upt_rec)
  then show ?thesis by (simp add: all_pixel_costs_def)
qed

lemma two_pixels_order:
  "image_position_order rnd srt two_pixels
     = Inr (map pos (srt cost_less
              [\<lparr>pos = 0, cost = Finite MaxFloat64\<rparr>, \<lparr>pos = 1, cost = Finite MaxFloat64\<rparr>]))"
proof -
  have "Dx two_pixels * Dy two_pixels = 2" by (simp add: two_pixels_def)
  then show ?thesis
    by (simp add: image_position_order_def PositionOrder_def sorted_pixel_costs_def
        two_pixels_costs two_pixels_all_costs)
qed

lemma two_pixels_stable:
  "map pos (insertion_sort cost_less
      [\<lparr>pos = 0, cost = Finite MaxFloat64\<rparr>, \<lparr>pos = 1, cost = Finite MaxFloat64\<rparr>]) = [0, 1]"
  by (simp add: insertion_sort_def cost_less_def)

theorem position_order_sorted_permutation_witness:
  "wf_image two_pixels \<and> sort_permutes insertion_sort \<and> sort_sorts insertion_sort
   \<and> image_position_order exact insertion_sort two_pixels = Inr [0, 1]"
  using position_order_sorted_permutation
    [OF wf_two_pixels sort_permutes_insertion_sort sort_sorts_insertion_sort, of exact]
    wf_two_pixels sort_permutes_insertion_sort sort_sorts_insertion_sort
  by (simp only: two_pixels_order two_pixels_stable)

text \<open>
  On the raster of two pixels, a slice of at most 12 elements, the library sorts by
  insertion and leaves the two positions of equal cost in their order.
\<close>

lemma two_pixels_Slice: "Slice_position_order exact two_pixels = Some (Inr [0, 1])"
proof -
  have d: "Dx two_pixels * Dy two_pixels = 2" by (simp add: two_pixels_def)
  have s: "Slice cost_less
             [\<lparr>pos = 0, cost = Finite MaxFloat64\<rparr>, \<lparr>pos = 1, cost = Finite MaxFloat64\<rparr>]
           = Some [\<lparr>pos = 0, cost = Finite MaxFloat64\<rparr>, \<lparr>pos = 1, cost = Finite MaxFloat64\<rparr>]"
    by (simp add: Slice_def insertionSort_func_def insertion_loop.simps upto.simps Less_def
        cost_less_def)
  show ?thesis
    unfolding Slice_position_order_def two_pixels_costs d
    by (simp only: sum.case two_pixels_all_costs s option.case) simp
qed

text \<open>The run of \<open>sort.Slice\<close> on the 16 positions of the black square.\<close>

lemma MaxFloat64_above: "(1000000::real) < MaxFloat64" "\<not> MaxFloat64 < (1000000::real)"
  by (simp_all add: MaxFloat64_def)

lemma list_update_numeral: "(x # xs)[numeral k := y] = x # xs[pred_numeral k := y]"
  by (simp add: numeral_eq_Suc)

lemma pdqsort_func_short:
  "b - a \<le> 12 \<Longrightarrow>
     pdqsort_func (Suc fuel) lt data a b wasBalanced wasPartitioned
       = Some (insertionSort_func lt data a b)"
  by simp

lemma black_square_pixel_cost: "pixel_cost exact black_square x y 1 = 1000000"
  by (simp add: pixel_cost_def sobel_gradients_def sobel_step_def getChannelValue_def
      RGBAAt_def black_square_def exact_def epsilon_def Let_def)

lemma black_square_costs:
  "CalculateCosts exact black_square 1
     = Inr \<lparr>costs =
              [Finite MaxFloat64, Finite MaxFloat64, Finite MaxFloat64, Finite MaxFloat64,
               Finite MaxFloat64, Finite 1000000, Finite 1000000, Finite MaxFloat64,
               Finite MaxFloat64, Finite 1000000, Finite 1000000, Finite MaxFloat64,
               Finite MaxFloat64, Finite MaxFloat64, Finite MaxFloat64, Finite MaxFloat64],
            width = 4, height = 4\<rparr>"
proof -
  have u: "[1..(2::int)] = [1, 2]" "[0..(3::int)] = [0, 1, 2, 3]"
    by (simp_all add: upto.simps)
  have r: "replicate 16 (Finite 0) = map (\<lambda>i. Finite 0) [0..<16]"
    by (simp add: map_replicate_const)
  have n: "[0..<16] = [0, 1, 2, 3, 4, 5, 6, 7, 8, 9, 10, 11, 12, 13, 14, 15]"
    by (simp add: upt_rec)
  have d: "int (Dx black_square) = 4" "int (Dy black_square) = 4"
    by (simp_all add: black_square_def)
  show ?thesis
    by (simp add: CalculateCosts_def black_square_pixel_cost d NewCostMap_def set_border_def
        CostMap_Set_def Let_def u r n list_update_numeral)
qed

lemma black_square_sorted:
  fixes M I :: float64 and apc spc :: "pixelCost list"
  defines "M \<equiv> Finite MaxFloat64" and "I \<equiv> Finite 1000000"
  defines "apc \<equiv>
     [\<lparr>pos = 0, cost = M\<rparr>, \<lparr>pos = 1, cost = M\<rparr>, \<lparr>pos = 2, cost = M\<rparr>, \<lparr>pos = 3, cost = M\<rparr>,
      \<lparr>pos = 4, cost = M\<rparr>, \<lparr>pos = 5, cost = I\<rparr>, \<lparr>pos = 6, cost = I\<rparr>, \<lparr>pos = 7, cost = M\<rparr>,
      \<lparr>pos = 8, cost = M\<rparr>, \<lparr>pos = 9, cost = I\<rparr>, \<lparr>pos = 10, cost = I\<rparr>, \<lparr>pos = 11, cost = M\<rparr>,
      \<lparr>pos = 12, cost = M\<rparr>, \<lparr>pos = 13, cost = M\<rparr>, \<lparr>pos = 14, cost = M\<rparr>,
      \<lparr>pos = 15, cost = M\<rparr>]"
  defines "spc \<equiv>
     [\<lparr>pos = 5, cost = I\<rparr>, \<lparr>pos = 10, cost = I\<rparr>, \<lparr>pos = 9, cost = I\<rparr>, \<lparr>pos = 6, cost = I\<rparr>,
      \<lparr>pos = 8, cost = M\<rparr>, \<lparr>pos = 4, cost = M\<rparr>, \<lparr>pos = 3, cost = M\<rparr>, \<lparr>pos = 7, cost = M\<rparr>,
      \<lparr>pos = 0, cost = M\<rparr>, \<lparr>pos = 2, cost = M\<rparr>, \<lparr>pos = 1, cost = M\<rparr>, \<lparr>pos = 11, cost = M\<rparr>,
      \<lparr>pos = 12, cost = M\<rparr>, \<lparr>pos = 13, cost = M\<rparr>, \<lparr>pos = 14, cost = M\<rparr>,
      \<lparr>pos = 15, cost = M\<rparr>]"
  shows "Slice cost_less apc = Some spc"
proof -
  note ev = Less_def Swap_def cost_less_def M_def I_def MaxFloat64_above list_update_numeral
  have pivot: "choosePivot_func cost_less apc 0 16 = (8, increasingHint)"
    by (simp add: choosePivot_func_def median_func_def order2_func_def Let_def apc_def ev)
  have unsorted: "partialInsertionSort_func cost_less apc 0 16 = Some False"
    by (simp add: partialInsertionSort_func_def sorted_prefix.simps Let_def apc_def ev)
  have part: "partition_func cost_less apc 0 16 8 = (spc, 4, False)"
    by (simp add: partition_func_def partition_loop.simps up_while.simps down_while.simps
        Let_def apc_def spc_def ev)
  have left: "insertionSort_func cost_less spc 0 4 = spc"
    by (simp add: insertionSort_func_def insertion_loop.simps upto.simps spc_def ev)
  have right: "insertionSort_func cost_less spc 5 16 = spc"
    by (simp add: insertionSort_func_def insertion_loop.simps upto.simps spc_def ev)
  have run: "pdqsort_func (Suc (Suc fuel)) cost_less apc 0 16 True True = Some spc" for fuel
    by (simp add: pivot unsorted part left right pdqsort_func.simps(2) [of "Suc fuel"]
        pdqsort_func_short del: pdqsort_func.simps)
  have l: "length apc = Suc 15" by (simp add: apc_def)
  show ?thesis
    unfolding Slice_def l using run [of 15] by simp
qed

text \<open>
  C4 as stated fails: \<open>sort.Slice\<close> leaves positions of equal cost in another order
  than that of the raster. On the black square of 4 by 4 pixels the 12 pixels of the
  border cost \<open>math.MaxFloat64\<close> and the 4 pixels inside cost the same (\<open>10^6\<close> in exact
  arithmetic); the 16 positions are more than the 12 that the library sorts by
  insertion, the pivot is position 8, and the partition around it leaves the positions
  inside in the order 5, 10, 9, 6 and those of the border in the order 8, 4, 3, 7, 0,
  2, 1, 11, ..., 15.
\<close>

theorem position_order_ties_not_ascending:
  "CalculateCosts exact black_square 1
     = Inr \<lparr>costs =
              [Finite MaxFloat64, Finite MaxFloat64, Finite MaxFloat64, Finite MaxFloat64,
               Finite MaxFloat64, Finite 1000000, Finite 1000000, Finite MaxFloat64,
               Finite MaxFloat64, Finite 1000000, Finite 1000000, Finite MaxFloat64,
               Finite MaxFloat64, Finite MaxFloat64, Finite MaxFloat64, Finite MaxFloat64],
            width = 4, height = 4\<rparr>
   \<and> Slice_position_order exact black_square
       = Some (Inr [5, 10, 9, 6, 8, 4, 3, 7, 0, 2, 1, 11, 12, 13, 14, 15])"
proof -
  let ?M = "Finite MaxFloat64" and ?I = "Finite 1000000"
  let ?cm = "\<lparr>costs = [?M, ?M, ?M, ?M, ?M, ?I, ?I, ?M, ?M, ?I, ?I, ?M, ?M, ?M, ?M, ?M],
              width = 4, height = 4\<rparr>"
  let ?apc =
    "[\<lparr>pos = 0, cost = ?M\<rparr>, \<lparr>pos = 1, cost = ?M\<rparr>, \<lparr>pos = 2, cost = ?M\<rparr>,
      \<lparr>pos = 3, cost = ?M\<rparr>, \<lparr>pos = 4, cost = ?M\<rparr>, \<lparr>pos = 5, cost = ?I\<rparr>,
      \<lparr>pos = 6, cost = ?I\<rparr>, \<lparr>pos = 7, cost = ?M\<rparr>, \<lparr>pos = 8, cost = ?M\<rparr>,
      \<lparr>pos = 9, cost = ?I\<rparr>, \<lparr>pos = 10, cost = ?I\<rparr>, \<lparr>pos = 11, cost = ?M\<rparr>,
      \<lparr>pos = 12, cost = ?M\<rparr>, \<lparr>pos = 13, cost = ?M\<rparr>, \<lparr>pos = 14, cost = ?M\<rparr>,
      \<lparr>pos = 15, cost = ?M\<rparr>]"
  let ?spc =
    "[\<lparr>pos = 5, cost = ?I\<rparr>, \<lparr>pos = 10, cost = ?I\<rparr>, \<lparr>pos = 9, cost = ?I\<rparr>,
      \<lparr>pos = 6, cost = ?I\<rparr>, \<lparr>pos = 8, cost = ?M\<rparr>, \<lparr>pos = 4, cost = ?M\<rparr>,
      \<lparr>pos = 3, cost = ?M\<rparr>, \<lparr>pos = 7, cost = ?M\<rparr>, \<lparr>pos = 0, cost = ?M\<rparr>,
      \<lparr>pos = 2, cost = ?M\<rparr>, \<lparr>pos = 1, cost = ?M\<rparr>, \<lparr>pos = 11, cost = ?M\<rparr>,
      \<lparr>pos = 12, cost = ?M\<rparr>, \<lparr>pos = 13, cost = ?M\<rparr>, \<lparr>pos = 14, cost = ?M\<rparr>,
      \<lparr>pos = 15, cost = ?M\<rparr>]"
  have n: "[0..<16] = [0, 1, 2, 3, 4, 5, 6, 7, 8, 9, 10, 11, 12, 13, 14, 15]"
    by (simp add: upt_rec)
  have d: "Dx black_square * Dy black_square = 16" by (simp add: black_square_def)
  have a: "all_pixel_costs 16 ?cm = Inr ?apc"
    by (simp add: all_pixel_costs_def n)
  have s: "Slice cost_less ?apc = Some ?spc"
    by (rule black_square_sorted)
  have m: "map pos ?spc = [5, 10, 9, 6, 8, 4, 3, 7, 0, 2, 1, 11, 12, 13, 14, 15]"
    by simp
  have "Slice_position_order exact black_square
          = Some (Inr [5, 10, 9, 6, 8, 4, 3, 7, 0, 2, 1, 11, 12, 13, 14, 15])"
    unfolding Slice_position_order_def black_square_costs d
    by (simp only: sum.case a s option.case m)
  then show ?thesis by (simp only: black_square_costs)
qed

lemma upt_8: "[0..<8] = [0, 1, 2, 3, 4, 5, 6, 7]"
  by (simp add: upt_rec)

lemma lsb_test: "(drop_bit k (x::byte) AND 1 = 1) = bit x k"
  by (simp add: and_one_eq mod_2_eq_odd bit_iff_odd_drop_bit)

lemma or_bit_step:
  "(if drop_bit k (x::byte) AND 1 = 1 then acc OR push_bit k 1 else acc) = acc OR (x AND push_bit k 1)"
  by (rule bit_eqI) (auto simp: lsb_test bit_simps)

lemma less_8_cases:
  assumes "n < (8::nat)"
  obtains "n = 0" | "n = 1" | "n = 2" | "n = 3" | "n = 4" | "n = 5" | "n = 6" | "n = 7"
  using assms by linarith

lemma byte_or_masks:
  fixes x :: byte
  shows "x AND 128 OR x AND 64 OR x AND 32 OR x AND 16 OR x AND 8 OR x AND 4 OR x AND 2 OR x AND 1
           = x"
proof (rule bit_eqI)
  fix n assume "possible_bit TYPE(byte) n"
  then have "n < 8" by (simp add: possible_bit_def)
  then show "bit (x AND 128 OR x AND 64 OR x AND 32 OR x AND 16 OR x AND 8 OR x AND 4
                   OR x AND 2 OR x AND 1) n = bit x n"
    by (cases n rule: less_8_cases) (simp_all add: bit_simps)
qed

lemma byte_of_its_bits:
  fixes x :: byte
  shows "fold (\<lambda>j acc. if drop_bit (7 - j) x AND 1 = 1 then acc OR push_bit (7 - j) 1 else acc)
           [0..<8] 0 = x"
proof -
  have "fold (\<lambda>j acc. if drop_bit (7 - j) x AND 1 = 1 then acc OR push_bit (7 - j) 1 else acc)
           [0..<8] 0
        = fold (\<lambda>j acc. acc OR (x AND push_bit (7 - j) 1)) [0..<8] 0"
    by (simp only: or_bit_step)
  also have "\<dots> = x AND 128 OR x AND 64 OR x AND 32 OR x AND 16 OR x AND 8 OR x AND 4
                   OR x AND 2 OR x AND 1"
    unfolding upt_8 by (simp add: ac_simps)
  finally show ?thesis by (simp only: byte_or_masks)
qed

lemma Uint64_PutUint64: "Uint64 (PutUint64 v) = v"
proof (rule bit_eqI)
  fix n assume "possible_bit TYPE(uint64) n"
  then have n: "n < 64" by (simp add: possible_bit_def)
  have "bit (Uint64 (PutUint64 v)) n =
         (n < 8 \<and> bit v n \<or>
          8 \<le> n \<and> n - 8 < 64 \<and> n - 8 < 8 \<and> bit v (8 + (n - 8)) \<or>
          16 \<le> n \<and> n - 16 < 64 \<and> n - 16 < 8 \<and> bit v (16 + (n - 16)) \<or>
          24 \<le> n \<and> n - 24 < 64 \<and> n - 24 < 8 \<and> bit v (24 + (n - 24)) \<or>
          32 \<le> n \<and> n - 32 < 64 \<and> n - 32 < 8 \<and> bit v (32 + (n - 32)) \<or>
          40 \<le> n \<and> n - 40 < 64 \<and> n - 40 < 8 \<and> bit v (40 + (n - 40)) \<or>
          48 \<le> n \<and> n - 48 < 64 \<and> n - 48 < 8 \<and> bit v (48 + (n - 48)) \<or>
          56 \<le> n \<and> n - 56 < 64 \<and> n - 56 < 8 \<and> bit v (56 + (n - 56)))"
    using n by (simp add: Uint64_def PutUint64_def bit_simps)
  also have "\<dots> = bit v n"
  proof -
    consider "n < 8" | "8 \<le> n" "n < 16" | "16 \<le> n" "n < 24" | "24 \<le> n" "n < 32"
      | "32 \<le> n" "n < 40" | "40 \<le> n" "n < 48" | "48 \<le> n" "n < 56" | "56 \<le> n"
      by linarith
    then show ?thesis using n by cases auto
  qed
  finally show "bit (Uint64 (PutUint64 v)) n = bit v n" .
qed

lemma embed_bit_ok:
  assumes i: "img < length h0" and n: "length (h0 ! img) = n" and r: "length r = n"
    and c: "n \<le> length (costs cm)"
    and k: "k < length spc" "pos (spc ! k) < n" "k div 8 < length message"
  shows "\<exists>v rs'. embed_bit img (length h0) message cm spc k (h0 @ [r], rs)
                    = (None, h0 @ [r[pos (spc ! k) := v]], rs')
                  \<and> v AND 1 = message_bit message k"
proof -
  let ?p = "pos (spc ! k)"
  let ?e = "LSBMatchingEmbed (h0 ! img ! ?p) (message_bit message k) (costs cm ! ?p) rs"
  have "embed_bit img (length h0) message cm spc k (h0 @ [r], rs)
          = (None, h0 @ [r[?p := fst (fst ?e)]], snd ?e)"
    using assms by (simp add: embed_bit_def Let_def nth_append message_bit_def)
  moreover have "fst (fst ?e) AND 1 = message_bit message k"
    by (rule LSBMatchingEmbed_lsb [OF message_bit_cases])
  ultimately show ?thesis by blast
qed

lemma embed_loop_ok:
  assumes i: "img < length h0" and n: "length (h0 ! img) = n" and c: "n \<le> length (costs cm)"
    and r: "length r = n"
    and ks: "\<forall>k\<in>set ks. k < length spc \<and> pos (spc ! k) < n \<and> k div 8 < length message"
    and d: "distinct (map (\<lambda>k. pos (spc ! k)) ks)"
  shows "\<exists>r' rs'. embed_loop (embed_bit img (length h0) message cm spc) ks (h0 @ [r], rs)
                     = (None, h0 @ [r'], rs')
            \<and> length r' = n
            \<and> (\<forall>k\<in>set ks. r' ! pos (spc ! k) AND 1 = message_bit message k)
            \<and> (\<forall>p < n. p \<notin> (\<lambda>k. pos (spc ! k)) ` set ks \<longrightarrow> r' ! p = r ! p)"
  using r ks d
proof (induction ks arbitrary: r rs)
  case Nil
  then show ?case by simp
next
  case (Cons k ks)
  let ?p = "pos (spc ! k)"
  have kk: "k < length spc" "?p < n" "k div 8 < length message"
    using Cons.prems(2) by auto
  from embed_bit_ok [OF i n Cons.prems(1) c kk, of rs]
  obtain v rs1 where b: "embed_bit img (length h0) message cm spc k (h0 @ [r], rs)
                    = (None, h0 @ [r[?p := v]], rs1)"
    and v: "v AND 1 = message_bit message k"
    by blast
  have r1: "length (r[?p := v]) = n" using Cons.prems(1) by simp
  have ks': "\<forall>k\<in>set ks. k < length spc \<and> pos (spc ! k) < n \<and> k div 8 < length message"
    using Cons.prems(2) by simp
  have d': "distinct (map (\<lambda>k. pos (spc ! k)) ks)" and np: "?p \<notin> (\<lambda>k. pos (spc ! k)) ` set ks"
    using Cons.prems(3) by auto
  from Cons.IH [OF r1 ks' d', of rs1]
  obtain r' rs' where l: "embed_loop (embed_bit img (length h0) message cm spc) ks
                            (h0 @ [r[?p := v]], rs1) = (None, h0 @ [r'], rs')"
    and len: "length r' = n"
    and bits: "\<forall>k\<in>set ks. r' ! pos (spc ! k) AND 1 = message_bit message k"
    and rest: "\<forall>p < n. p \<notin> (\<lambda>k. pos (spc ! k)) ` set ks \<longrightarrow> r' ! p = r[?p := v] ! p"
    by blast
  have "embed_loop (embed_bit img (length h0) message cm spc) (k # ks) (h0 @ [r], rs)
          = (None, h0 @ [r'], rs')"
    using b l by simp
  moreover have "r' ! ?p AND 1 = message_bit message k"
    using rest kk(2) np v Cons.prems(1) by simp
  moreover have "\<forall>p < n. p \<notin> (\<lambda>k. pos (spc ! k)) ` set (k # ks) \<longrightarrow> r' ! p = r ! p"
    using rest by auto
  ultimately show ?case using len bits by auto
qed

text \<open>
  \<open>GetOptimalChanges\<close> with room for the message: the fresh slice it returns carries bit
  \<open>k\<close> of the message in the least significant bit of the pixel at place \<open>k\<close> of the
  position order.
\<close>

lemma GetOptimalChanges_ok:
  fixes cm :: CostMap and srt :: sort_Slice
  assumes i: "img < length h" and n: "length (h ! img) = n" and c: "n \<le> length (costs cm)"
    and m: "length message * 8 \<le> n" and p: "sort_permutes srt"
  defines "spc \<equiv> srt cost_less (map (\<lambda>i. \<lparr>pos = i, cost = costs cm ! i\<rparr>) [0..<n])"
  shows "\<exists>r' rs'. GetOptimalChanges srt h img message cm rs = (Inr (length h), h @ [r'], rs')
            \<and> length r' = n
            \<and> (\<forall>k < length message * 8. r' ! pos (spc ! k) AND 1 = message_bit message k)"
proof -
  let ?ks = "[0..<length message * 8]"
  have len: "length spc = n" and dist: "distinct (map pos spc)"
    and st: "set (map pos spc) = {0..<n}"
    unfolding spc_def by (rule sorted_positions [OF p])+
  have s: "sorted_pixel_costs srt n cm = Inr spc"
    unfolding spc_def by (rule sorted_pixel_costs_ok [OF c])
  have ks: "\<forall>k\<in>set ?ks. k < length spc \<and> pos (spc ! k) < n \<and> k div 8 < length message"
  proof
    fix k assume "k \<in> set ?ks"
    then have k: "k < length message * 8" by simp
    then have kl: "k < length spc" using m len by simp
    then have "pos (spc ! k) \<in> set (map pos spc)" by (metis length_map nth_map nth_mem)
    then have "pos (spc ! k) < n" using st by simp
    moreover have "k div 8 < length message" using k by (simp add: less_mult_imp_div_less)
    ultimately show "k < length spc \<and> pos (spc ! k) < n \<and> k div 8 < length message"
      using kl by simp
  qed
  have "map (\<lambda>k. pos (spc ! k)) ?ks = take (length message * 8) (map pos spc)"
    by (rule nth_equalityI) (use m len in auto)
  then have d: "distinct (map (\<lambda>k. pos (spc ! k)) ?ks)"
    using dist by (simp only: distinct_take)
  have r: "length (h ! img) = n" by (rule n)
  from embed_loop_ok [OF i n c r ks d, of rs]
  obtain r' rs' where l: "embed_loop (embed_bit img (length h) message cm spc) ?ks
                            (h @ [h ! img], rs) = (None, h @ [r'], rs')"
    and lr: "length r' = n"
    and bits: "\<forall>k\<in>set ?ks. r' ! pos (spc ! k) AND 1 = message_bit message k"
    by blast
  have "GetOptimalChanges srt h img message cm rs = (Inr (length h), h @ [r'], rs')"
    using m n s l by (simp add: GetOptimalChanges_copy [OF i])
  with lr bits show ?thesis by auto
qed

section \<open>Properties of the encoder\<close>

lemma length_PutUint64: "length (PutUint64 v) = 8"
  by (simp add: PutUint64_def)

text \<open>The PNG of an opaque raster reads back as the raster.\<close>

lemma getImageAsRGBA_png_Encode:
  assumes "Opaque m"
  shows "getImageAsRGBA (png_Encode m) = Some (m, ''png'')"
proof -
  have "map ((\<lambda>(r, g, b). \<lparr>Red = r, Green = g, Blue = b, Alpha = 255\<rparr>)
              \<circ> (\<lambda>c. (Red c, Green c, Blue c))) (Pix m) = Pix m"
    by (rule map_idI) (use assms in \<open>simp add: Opaque_def list_all_iff\<close>)
  then show ?thesis
    using assms by (simp add: png_Encode_def getImageAsRGBA_def)
qed

lemma Opaque_black_strip: "Opaque black_strip"
  by (simp add: Opaque_def black_strip_def list_all_iff)

text \<open>What \<open>AdvancedEncode\<close> returns when the frame fits.\<close>

lemma AdvancedEncode_ok:
  fixes srt :: sort_Slice
  assumes wf: "wf_image img" and p: "sort_permutes srt"
    and cap: "(8 + length dataBytes) * 8 \<le> Dx img * Dy img"
  shows "\<exists>cm r'. CalculateCosts rnd img 1 = Inr cm
           \<and> length (costs cm) = Dx img * Dy img
           \<and> length r' = Dx img * Dy img
           \<and> AdvancedEncode rnd srt (Some (img, format)) (Some dataBytes) rs
                = (if format = ''png'' \<or> format = ''jpeg''
                   then Inr (png_Encode \<lparr>Dx = Dx img, Dy = Dy img,
                             Pix = map (\<lambda>i. (Pix img ! i)\<lparr>Red := r' ! i\<rparr>) [0..<Dx img * Dy img]\<rparr>)
                   else Inl UnsupportedFormat)
           \<and> (\<forall>k < (8 + length dataBytes) * 8.
                  r' ! pos (srt cost_less
                             (map (\<lambda>i. \<lparr>pos = i, cost = costs cm ! i\<rparr>) [0..<Dx img * Dy img]) ! k)
                    AND 1
                  = message_bit (PutUint64 (of_nat (length dataBytes)) @ dataBytes) k)"
proof -
  let ?n = "Dx img * Dy img"
  let ?full = "PutUint64 (of_nat (length dataBytes)) @ dataBytes"
  from CalculateCosts_costs [OF wf, of rnd 1]
  obtain cm where cm: "CalculateCosts rnd img 1 = Inr cm" and len: "length (costs cm) = ?n"
    by blast
  have lf: "length ?full = 8 + length dataBytes" by (simp add: length_PutUint64)
  have px: "length ([red_pixels img] ! 0) = ?n"
    using wf by (simp add: red_pixels_eq wf_image_def)
  have c: "?n \<le> length (costs cm)" using len by simp
  have m: "length ?full * 8 \<le> ?n" using cap lf by simp
  from GetOptimalChanges_ok [OF _ px c m p, of rs]
  obtain r' rs' where g: "GetOptimalChanges srt [red_pixels img] 0 ?full cm rs
                            = (Inr (length [red_pixels img]), [red_pixels img] @ [r'], rs')"
    and lr: "length r' = ?n"
    and bits: "\<forall>k < length ?full * 8.
                  r' ! pos (srt cost_less (map (\<lambda>i. \<lparr>pos = i, cost = costs cm ! i\<rparr>) [0..<?n]) ! k)
                    AND 1 = message_bit ?full k"
    by auto
  have rp: "result_pixels img r' = Inr (map (\<lambda>i. (Pix img ! i)\<lparr>Red := r' ! i\<rparr>) [0..<?n])"
    by (rule result_pixels_ok [OF wf]) (simp add: lr)
  have "AdvancedEncode rnd srt (Some (img, format)) (Some dataBytes) rs
          = (if format = ''png'' \<or> format = ''jpeg''
             then Inr (png_Encode \<lparr>Dx = Dx img, Dy = Dy img,
                       Pix = map (\<lambda>i. (Pix img ! i)\<lparr>Red := r' ! i\<rparr>) [0..<?n]\<rparr>)
             else Inl UnsupportedFormat)"
    using m g rp by (simp add: AdvancedEncode_def cm Let_def)
  with cm len lr bits lf show ?thesis by (intro exI [of _ cm] exI [of _ r']) simp
qed

text \<open>
  C5. For a raster as the decoders deliver it and a library sort that permutes,
  \<open>AdvancedEncode\<close> fails with the capacity error exactly when \<open>8 * (8 + L) > W * H\<close>;
  otherwise it succeeds on a PNG or JPEG carrier. A payload of \<open>W * H div 8 - 8\<close> bytes
  (where \<open>W * H \<ge> 64\<close>, so that this is a size) succeeds and one byte more fails.
\<close>

theorem AdvancedEncode_capacity:
  "wf_image img \<Longrightarrow> sort_permutes srt \<Longrightarrow>
     ((AdvancedEncode rnd srt (Some (img, format)) (Some dataBytes) rs = Inl CapacityExceeded)
        = (8 * (8 + length dataBytes) > Dx img * Dy img))
     \<and> ((format = ''png'' \<or> format = ''jpeg'') \<and> 8 * (8 + length dataBytes) \<le> Dx img * Dy img
          \<longrightarrow> (\<exists>stego. AdvancedEncode rnd srt (Some (img, format)) (Some dataBytes) rs = Inr stego))
     \<and> ((format = ''png'' \<or> format = ''jpeg'') \<and> 64 \<le> Dx img * Dy img
            \<and> length dataBytes = Dx img * Dy img div 8 - 8
          \<longrightarrow> (\<exists>stego. AdvancedEncode rnd srt (Some (img, format)) (Some dataBytes) rs = Inr stego))
     \<and> (length dataBytes = Dx img * Dy img div 8 - 8 + 1
          \<longrightarrow> AdvancedEncode rnd srt (Some (img, format)) (Some dataBytes) rs = Inl CapacityExceeded)"
proof -
  assume wf: "wf_image img" and p: "sort_permutes srt"
  let ?n = "Dx img * Dy img"
  let ?L = "length dataBytes"
  let ?enc = "AdvancedEncode rnd srt (Some (img, format)) (Some dataBytes) rs"
  from CalculateCosts_costs [OF wf, of rnd 1]
  obtain cm where cm: "CalculateCosts rnd img 1 = Inr cm" by blast
  have over: "?enc = Inl CapacityExceeded" if "8 * (8 + ?L) > ?n"
    using that by (simp add: AdvancedEncode_def cm Let_def length_PutUint64)
  have fits: "?enc \<noteq> Inl CapacityExceeded
              \<and> (format = ''png'' \<or> format = ''jpeg'' \<longrightarrow> (\<exists>stego. ?enc = Inr stego))"
    if "8 * (8 + ?L) \<le> ?n"
  proof -
    have "(8 + ?L) * 8 \<le> ?n" using that by simp
    from AdvancedEncode_ok [OF wf p this, of rnd format rs] show ?thesis
      by (auto split: if_splits)
  qed
  have a: "8 * (8 + ?L) \<le> ?n" if "64 \<le> ?n" "?L = ?n div 8 - 8"
    using that by simp
  have b: "8 * (8 + ?L) > ?n" if "?L = ?n div 8 - 8 + 1"
    using that by simp
  show ?thesis
    using over fits a b by (metis not_le)
qed

lemma wf_black_strip: "wf_image black_strip"
  by (simp add: wf_image_def black_strip_def maxAlloc_def)

theorem AdvancedEncode_capacity_witness:
  "wf_image black_strip \<and> sort_permutes insertion_sort
   \<and> 64 \<le> Dx black_strip * Dy black_strip
   \<and> length [65 :: byte] = Dx black_strip * Dy black_strip div 8 - 8
   \<and> (\<exists>stego. AdvancedEncode exact insertion_sort (Some (black_strip, ''png'')) (Some [65])
                 failing_source = Inr stego)
   \<and> AdvancedEncode exact insertion_sort (Some (black_strip, ''png'')) (Some [65, 66])
        failing_source = Inl CapacityExceeded"
proof -
  have d: "Dx black_strip * Dy black_strip = 72" by (simp add: black_strip_def)
  from AdvancedEncode_capacity [OF wf_black_strip sort_permutes_insertion_sort,
      of exact "''png''" "[65]" failing_source]
    AdvancedEncode_capacity [OF wf_black_strip sort_permutes_insertion_sort,
      of exact "''png''" "[65, 66]" failing_source]
  show ?thesis
    using wf_black_strip sort_permutes_insertion_sort by (simp add: d)
qed

text \<open>
  Whenever \<open>AdvancedEncode\<close> accepts an opaque carrier and a payload, the stego image,
  read from the PNG written, has the dimensions of the carrier and its Green, Blue and
  Alpha at every pixel; only Red may differ.
\<close>

lemma AdvancedEncode_preserves_channels:
  "wf_image img \<Longrightarrow> Opaque img \<Longrightarrow>
   AdvancedEncode rnd srt (Some (img, format)) data rs = Inr written \<Longrightarrow>
     \<exists>stego. getImageAsRGBA written = Some (stego, ''png'')
        \<and> Dx stego = Dx img \<and> Dy stego = Dy img
        \<and> (\<forall>x y. Green (RGBAAt stego x y) = Green (RGBAAt img x y)
               \<and> Blue (RGBAAt stego x y) = Blue (RGBAAt img x y)
               \<and> Alpha (RGBAAt stego x y) = Alpha (RGBAAt img x y))"
proof -
  assume wf: "wf_image img" and op: "Opaque img"
    and enc: "AdvancedEncode rnd srt (Some (img, format)) data rs = Inr written"
  let ?n = "Dx img * Dy img"
  from enc obtain m pix where rp: "result_pixels img m = Inr pix"
    and written: "written = png_Encode \<lparr>Dx = Dx img, Dy = Dy img, Pix = pix\<rparr>"
    by (auto simp: AdvancedEncode_def Let_def
        split: option.splits sum.splits prod.splits if_splits)
  define stego where "stego = \<lparr>Dx = Dx img, Dy = Dy img, Pix = pix\<rparr>"
  have lp: "length pix = ?n" by (rule result_pixels_Inr(1) [OF wf rp])
  have pix: "pix ! i = (Pix img ! i)\<lparr>Red := m ! i\<rparr>" if "i < ?n" for i
    using result_pixels_Inr(2) [OF wf rp that] by simp
  have "Alpha (pix ! i) = 255" if "i < ?n" for i
    using op wf that by (simp add: pix Opaque_def list_all_length wf_image_def)
  then have "Opaque stego"
    by (simp add: Opaque_def list_all_length stego_def lp)
  then have g: "getImageAsRGBA written = Some (stego, ''png'')"
    unfolding written stego_def [symmetric] by (rule getImageAsRGBA_png_Encode)
  have "Green (RGBAAt stego x y) = Green (RGBAAt img x y)
            \<and> Blue (RGBAAt stego x y) = Blue (RGBAAt img x y)
            \<and> Alpha (RGBAAt stego x y) = Alpha (RGBAAt img x y)" for x y
  proof (cases "in_raster (int (Dx img)) (int (Dy img)) x y")
    case True
    have "nat (y * int (Dx img) + x) < ?n"
      using raster_index_bounds [OF True] by (simp add: nat_less_iff)
    from pix [OF this] True show ?thesis
      by (simp add: RGBAAt_def stego_def in_raster_def)
  next
    case False
    then show ?thesis by (auto simp: RGBAAt_def stego_def in_raster_def)
  qed
  with g show ?thesis by (simp add: stego_def)
qed

lemma AdvancedEncode_preserves_channels_black_strip:
  "wf_image black_strip \<and> Opaque black_strip
   \<and> (\<exists>written stego.
         AdvancedEncode exact insertion_sort (Some (black_strip, ''png'')) (Some [65])
           ones_source = Inr written
        \<and> getImageAsRGBA written = Some (stego, ''png'')
        \<and> Dx stego = 72 \<and> Dy stego = 1
        \<and> Green (RGBAAt stego 5 0) = 0 \<and> Blue (RGBAAt stego 5 0) = 0
        \<and> Alpha (RGBAAt stego 5 0) = 255)"
proof -
  have "(8 + length [65 :: byte]) * 8 \<le> Dx black_strip * Dy black_strip"
    by (simp add: black_strip_def)
  from AdvancedEncode_ok [OF wf_black_strip sort_permutes_insertion_sort this,
      of exact "''png''" ones_source]
  obtain written where
    e: "AdvancedEncode exact insertion_sort (Some (black_strip, ''png'')) (Some [65]) ones_source
          = Inr written"
    by auto
  have c: "RGBAAt black_strip 5 0 = \<lparr>Red = 0, Green = 0, Blue = 0, Alpha = 255\<rparr>"
    by (simp add: RGBAAt_def black_strip_def)
  from AdvancedEncode_preserves_channels [OF wf_black_strip Opaque_black_strip e] e c
  show ?thesis
    using wf_black_strip Opaque_black_strip by (auto simp: black_strip_def)
qed

lemma wf_veiled_strip: "wf_image veiled_strip"
  by (simp add: wf_image_def veiled_strip_def maxAlloc_def)

lemma veiled_samples:
  "nrgba \<lparr>Red = r, Green = 100, Blue = 25, Alpha = 128\<rparr>
     = (unpremultiply r 128, 199, 49, 128)"
  by (simp add: nrgba_def unpremultiply_def)

lemma veiled_read_back:
  "rgba (s, 199, 49, 128) = \<lparr>Red = premultiply s 128, Green = 100, Blue = 24, Alpha = 128\<rparr>"
  by (simp add: rgba_def premultiply_def)

text \<open>
  C2. For every carrier and payload that \<open>AdvancedEncode\<close> accepts, the stego image is to
  equal the carrier on Green, Blue and Alpha at every pixel. On a carrier that is not
  opaque it does not: \<open>png.Encode\<close> divides the colours by alpha and \<open>getImageAsRGBA\<close>
  multiplies them again, both rounding down. The strip of 72 pixels of Green 100, Blue
  25 and alpha 128 is the raster of a PNG with the samples 200, 200, 50, 128; with a
  payload of one byte the PNG written holds the samples 199, 49, 128 for Green, Blue
  and alpha, and reads back with Blue 24 at every pixel.
\<close>

theorem stego_blue_changed:
  "getImageAsRGBA (TrueColorAlpha 72 1 (replicate 72 (200, 200, 50, 128)))
     = Some (veiled_strip, ''png'')
   \<and> (\<exists>samples stego.
        AdvancedEncode exact insertion_sort (Some (veiled_strip, ''png'')) (Some [65])
          failing_source = Inr (TrueColorAlpha 72 1 samples)
      \<and> map (\<lambda>(r, g, b, a). (g, b, a)) samples = replicate 72 (199, 49, 128)
      \<and> getImageAsRGBA (TrueColorAlpha 72 1 samples) = Some (stego, ''png'')
      \<and> map (\<lambda>c. (Green c, Blue c, Alpha c)) (Pix veiled_strip) = replicate 72 (100, 25, 128)
      \<and> map (\<lambda>c. (Green c, Blue c, Alpha c)) (Pix stego) = replicate 72 (100, 24, 128))"
proof -
  have "(8 + length [65 :: byte]) * 8 \<le> Dx veiled_strip * Dy veiled_strip"
    by (simp add: veiled_strip_def)
  from AdvancedEncode_ok [OF wf_veiled_strip sort_permutes_insertion_sort this,
      of exact "''png''" failing_source]
  obtain r' where
    e0: "AdvancedEncode exact insertion_sort (Some (veiled_strip, ''png'')) (Some [65])
          failing_source
          = Inr (png_Encode \<lparr>Dx = Dx veiled_strip, Dy = Dy veiled_strip,
                  Pix = map (\<lambda>i. (Pix veiled_strip ! i)\<lparr>Red := r' ! i\<rparr>)
                          [0..<Dx veiled_strip * Dy veiled_strip]\<rparr>)"
    by auto
  have d: "Dx veiled_strip = 72" "Dy veiled_strip = 1" "Dx veiled_strip * Dy veiled_strip = 72"
    by (simp_all add: veiled_strip_def)
  have pm: "map (\<lambda>i. (Pix veiled_strip ! i)\<lparr>Red := r' ! i\<rparr>) [0..<72]
              = map (\<lambda>i. \<lparr>Red = r' ! i, Green = 100, Blue = 25, Alpha = 128\<rparr>) [0..<72]"
    by (rule map_cong) (simp_all add: veiled_strip_def)
  have e: "AdvancedEncode exact insertion_sort (Some (veiled_strip, ''png'')) (Some [65])
          failing_source
          = Inr (png_Encode \<lparr>Dx = 72, Dy = 1, Pix = map (\<lambda>i. \<lparr>Red = r' ! i, Green = 100, Blue = 25, Alpha = 128\<rparr>) [0..<72]\<rparr>)"
    using e0 pm by (simp add: d)
  let ?samples = "map (\<lambda>i. (unpremultiply (r' ! i) 128, 199, 49, 128 :: byte)) [0..<72]"
  have n: "\<not> Opaque \<lparr>Dx = 72, Dy = 1, Pix = map (\<lambda>i. \<lparr>Red = r' ! i, Green = 100, Blue = 25, Alpha = 128\<rparr>) [0..<72]\<rparr>"
    by (simp add: Opaque_def list_all_iff) (rule exI [of _ 0], simp)
  have w: "png_Encode \<lparr>Dx = 72, Dy = 1, Pix = map (\<lambda>i. \<lparr>Red = r' ! i, Green = 100, Blue = 25, Alpha = 128\<rparr>) [0..<72]\<rparr>
            = TrueColorAlpha 72 1 ?samples"
    using n by (simp add: png_Encode_def veiled_samples comp_def)
  have g: "getImageAsRGBA (TrueColorAlpha 72 1 ?samples)
            = Some (\<lparr>Dx = 72, Dy = 1,
                     Pix = map (\<lambda>i. \<lparr>Red = premultiply (unpremultiply (r' ! i) 128) 128,
                                      Green = 100, Blue = 24, Alpha = 128\<rparr>) [0..<72]\<rparr>, ''png'')"
    by (simp add: getImageAsRGBA_def veiled_read_back comp_def)
  have r: "map (\<lambda>i. c) [0..<72] = replicate 72 c" for c :: "'a"
    by (simp add: map_replicate_const)
  have c: "getImageAsRGBA (TrueColorAlpha 72 1 (replicate 72 (200, 200, 50, 128)))
             = Some (veiled_strip, ''png'')"
    by (simp add: getImageAsRGBA_def rgba_def premultiply_def veiled_strip_def)
  have "\<exists>samples stego.
        AdvancedEncode exact insertion_sort (Some (veiled_strip, ''png'')) (Some [65])
          failing_source = Inr (TrueColorAlpha 72 1 samples)
      \<and> map (\<lambda>(r, g, b, a). (g, b, a)) samples = replicate 72 (199, 49, 128)
      \<and> getImageAsRGBA (TrueColorAlpha 72 1 samples) = Some (stego, ''png'')
      \<and> map (\<lambda>c. (Green c, Blue c, Alpha c)) (Pix veiled_strip) = replicate 72 (100, 25, 128)
      \<and> map (\<lambda>c. (Green c, Blue c, Alpha c)) (Pix stego) = replicate 72 (100, 24, 128)"
    apply (intro exI conjI)
        apply (simp only: e w)
       apply (simp add: comp_def r)
      apply (rule g)
     apply (simp add: veiled_strip_def)
    apply (simp add: comp_def r)
    done
  with c show ?thesis by (rule conjI)
qed

section \<open>Properties of the decoder\<close>

lemma message_bit_byte:
  assumes "j < 8"
  shows "message_bit m (i * 8 + j) = drop_bit (7 - j) (m ! i) AND 1"
  using assms by (simp add: message_bit_def)

lemma byte_of_bits_message:
  assumes "\<And>j. j < 8 \<Longrightarrow> bits ! (i * 8 + j) = message_bit m ((a + i) * 8 + j)"
  shows "byte_of_bits bits i = m ! (a + i)"
proof -
  have "byte_of_bits bits i
          = fold (\<lambda>j acc. if drop_bit (7 - j) (m ! (a + i)) AND 1 = 1
                           then acc OR push_bit (7 - j) 1 else acc) [0..<8] 0"
    unfolding byte_of_bits_def
  proof (rule fold_cong)
    fix j assume "j \<in> set [0..<8]"
    then have j: "j < 8" by simp
    show "(\<lambda>acc. if bits ! (i * 8 + j) = 1 then acc OR push_bit (7 - j) 1 else acc)
          = (\<lambda>acc. if drop_bit (7 - j) (m ! (a + i)) AND 1 = 1
                    then acc OR push_bit (7 - j) 1 else acc)"
      by (simp only: assms [OF j] message_bit_byte [OF j])
  qed simp_all
  then show ?thesis by (simp only: byte_of_its_bits)
qed

lemma collect_lsb_at:
  assumes "a + m \<le> length spc" and "\<forall>q\<in>set spc. pos q < length pixels"
  shows "collect (\<lambda>i. lsb_at pixels spc (i + a)) [0..<m]
           = Inr (map (\<lambda>i. pixels ! pos (spc ! (i + a)) AND 1) [0..<m])"
  by (rule collect_map) (use assms in \<open>auto simp: lsb_at_def Let_def\<close>)

text \<open>
  \<open>AdvancedDecode\<close> up to its step 8, on a raster as the decoders deliver it with room
  for a header: the bits come from the Red channel in the position order.
\<close>

lemma AdvancedDecode_steps:
  fixes srt :: sort_Slice
  assumes wf: "wf_image img" and p: "sort_permutes srt"
    and cm: "CalculateCosts rnd img 1 = Inr cm" and len: "length (costs cm) = Dx img * Dy img"
    and n: "64 \<le> Dx img * Dy img"
  defines "spc \<equiv> srt cost_less (map (\<lambda>i. \<lparr>pos = i, cost = costs cm ! i\<rparr>) [0..<Dx img * Dy img])"
  defines "bits \<equiv> \<lambda>k. map Red (Pix img) ! pos (spc ! k) AND 1"
  defines "messageLength \<equiv> Uint64 (map (byte_of_bits (map bits [0..<64])) [0..<8])"
  shows "AdvancedDecode rnd srt (Some (img, format)) =
     (if messageLength = 0 \<or> 64 + messageLength * 8 > of_nat (Dx img * Dy img)
      then Inl CorruptHeader
      else
        (case make_bytes (unat (messageLength * 8)) of
           Inl e \<Rightarrow> Inl e
         | Inr zeros \<Rightarrow>
        (case collect (\<lambda>i. lsb_at (map Red (Pix img)) spc (i + 64))
                [0..<unat (messageLength * 8)] of
           Inl e \<Rightarrow> Inl e
         | Inr dataBits \<Rightarrow>
        (case make_bytes (unat messageLength) of
           Inl e \<Rightarrow> Inl e
         | Inr zeros' \<Rightarrow> bits_to_bytes dataBits (unat messageLength)))))"
proof -
  let ?n = "Dx img * Dy img"
  have s: "sorted_pixel_costs srt ?n cm = Inr spc"
    unfolding spc_def by (rule sorted_pixel_costs_ok) (simp add: len)
  have ls: "length spc = ?n" and st: "set (map pos spc) = {0..<?n}"
    unfolding spc_def by (rule sorted_positions [OF p])+
  have lp: "length (map Red (Pix img)) = ?n" using wf by (simp add: wf_image_def)
  have inr: "\<forall>q\<in>set spc. pos q < length (map Red (Pix img))"
    using st lp by auto
  have hb: "collect (lsb_at (map Red (Pix img)) spc) [0..<64] = Inr (map bits [0..<64])"
    using collect_lsb_at [of 0 64 spc "map Red (Pix img)"] inr n ls
    by (simp add: bits_def)
  have hd: "bits_to_bytes (map bits [0..<64]) 8
              = Inr (map (byte_of_bits (map bits [0..<64])) [0..<8])"
    by (simp add: bits_to_bytes_def)
  have t: "unat (of_nat (headerSize * 8) :: uint64) = 64" "(of_nat (headerSize * 8) :: uint64) = 64"
    by (simp_all add: headerSize_def)
  have h8: "headerSize * 8 = 64" "headerSize = 8" by (simp_all add: headerSize_def)
  show ?thesis
    unfolding AdvancedDecode_def
    using n
    by (simp add: cm red_pixels_eq [OF wf] s Let_def t h8 hb hd messageLength_def
        cong: sum.case_cong)
qed

text \<open>The raster handed to \<open>png.Encode\<close>: the carrier with another Red channel.\<close>

lemma stego_facts:
  assumes wf: "wf_image img" and lr: "length r' = Dx img * Dy img"
  defines "stego \<equiv> \<lparr>Dx = Dx img, Dy = Dy img,
                      Pix = map (\<lambda>i. (Pix img ! i)\<lparr>Red := r' ! i\<rparr>) [0..<Dx img * Dy img]\<rparr>"
  shows "wf_image stego" and "map Red (Pix stego) = r'"
    and "CalculateCosts rnd stego 1 = CalculateCosts rnd img 1"
    and "Opaque img \<Longrightarrow> Opaque stego"
proof -
  let ?n = "Dx img * Dy img"
  show "wf_image stego" using wf by (simp add: wf_image_def stego_def)
  show "Opaque stego" if "Opaque img"
    using that wf by (simp add: Opaque_def list_all_length stego_def wf_image_def)
  show "map Red (Pix stego) = r'"
    by (rule nth_equalityI) (simp_all add: stego_def lr)
  have "Green (RGBAAt stego x y) = Green (RGBAAt img x y)" for x y
  proof (cases "in_raster (int (Dx img)) (int (Dy img)) x y")
    case True
    have "nat (y * int (Dx img) + x) < ?n"
      using raster_index_bounds [OF True] by (simp add: nat_less_iff)
    then show ?thesis using True by (simp add: RGBAAt_def stego_def in_raster_def)
  next
    case False
    then show ?thesis by (auto simp: RGBAAt_def stego_def in_raster_def)
  qed
  then show "CalculateCosts rnd stego 1 = CalculateCosts rnd img 1"
    by (intro CalculateCosts_reference_only) (simp_all add: stego_def)
qed

lemma uint64_of_nat:
  assumes "a < 2 ^ 64"
  shows "unat (of_nat a :: uint64) = a"
  using assms by (simp add: unsigned_of_nat take_bit_nat_eq_self)

lemma uint64_of_nat_not_less:
  assumes "a < 2 ^ 64" "b < 2 ^ 64" "a \<le> b"
  shows "\<not> (of_nat b :: uint64) < of_nat a"
  using assms by (simp add: word_less_nat_alt uint64_of_nat)

text \<open>
  \<open>AdvancedDecode\<close> on a raster whose Red channel carries, in the position order, the
  bits of a frame: the big-endian length \<open>L\<close> of the payload, then the payload.
\<close>

lemma AdvancedDecode_frame:
  fixes srt :: sort_Slice
  assumes wf: "wf_image img" and p: "sort_permutes srt"
    and cm: "CalculateCosts rnd img 1 = Inr cm" and len: "length (costs cm) = Dx img * Dy img"
    and cap: "(8 + length dataBytes) * 8 \<le> Dx img * Dy img"
    and bits: "\<forall>k < (8 + length dataBytes) * 8.
                 map Red (Pix img) !
                   pos (srt cost_less
                          (map (\<lambda>i. \<lparr>pos = i, cost = costs cm ! i\<rparr>) [0..<Dx img * Dy img]) ! k)
                   AND 1
                 = message_bit (PutUint64 (of_nat (length dataBytes)) @ dataBytes) k"
  shows "AdvancedDecode rnd srt (Some (img, format))
           = (if length dataBytes = 0 then Inl CorruptHeader else Inr dataBytes)"
proof -
  let ?n = "Dx img * Dy img"
  let ?L = "length dataBytes"
  let ?full = "PutUint64 (of_nat ?L) @ dataBytes"
  define spc where "spc = srt cost_less (map (\<lambda>i. \<lparr>pos = i, cost = costs cm ! i\<rparr>) [0..<?n])"
  define bit_at where "bit_at = (\<lambda>k. map Red (Pix img) ! pos (spc ! k) AND 1)"
  have b: "bit_at k = message_bit ?full k" if "k < (8 + ?L) * 8" for k
    using bits that by (simp add: bit_at_def spc_def)
  have n64: "64 \<le> ?n" using cap by simp
  have nmax: "4 * ?n \<le> 2 ^ 48" using wf by (simp add: wf_image_def maxAlloc_def)
  have L8: "?L * 8 + 64 \<le> ?n" using cap by simp
  have small: "?L < 2 ^ 64" "?L * 8 < 2 ^ 64" "64 + ?L * 8 < 2 ^ 64" "?n < 2 ^ 64"
    using L8 nmax by simp_all
  have ls: "length spc = ?n" and st: "set (map pos spc) = {0..<?n}"
    unfolding spc_def by (rule sorted_positions [OF p])+
  have lp: "length (map Red (Pix img)) = ?n" using wf by (simp add: wf_image_def)
  have inr: "\<forall>q\<in>set spc. pos q < length (map Red (Pix img))"
    using st lp by auto
  \<comment> \<open>the header\<close>
  have hbits: "map bit_at [0..<64] = map (message_bit ?full) [0..<64]"
    by (rule map_cong) (simp_all add: b)
  have hbyte: "byte_of_bits (map (message_bit ?full) [0..<64]) i = PutUint64 (of_nat ?L) ! i"
    if "i < 8" for i
  proof -
    have "byte_of_bits (map (message_bit ?full) [0..<64]) i = ?full ! (0 + i)"
    proof (rule byte_of_bits_message)
      fix j :: nat assume "j < 8"
      then have "i * 8 + j < 64" using that by simp
      then show "map (message_bit ?full) [0..<64] ! (i * 8 + j) = message_bit ?full ((0 + i) * 8 + j)"
        by simp
    qed
    then show ?thesis using that by (simp add: nth_append length_PutUint64)
  qed
  have header: "map (byte_of_bits (map bit_at [0..<64])) [0..<8] = PutUint64 (of_nat ?L)"
    by (rule nth_equalityI) (simp_all add: hbits hbyte length_PutUint64)
  have ml: "Uint64 (map (byte_of_bits (map bit_at [0..<64])) [0..<8]) = of_nat ?L"
    by (simp only: header Uint64_PutUint64)
  \<comment> \<open>the arithmetic of step 8\<close>
  have tdb: "(of_nat ?L :: uint64) * 8 = of_nat (?L * 8)" by simp
  have tb: "(64 :: uint64) + of_nat (?L * 8) = of_nat (64 + ?L * 8)" by simp
  have zero: "((of_nat ?L :: uint64) = 0) = (?L = 0)"
    using uint64_of_nat [OF small(1)] by (auto simp: word_eq_iff_unsigned [where ?'a = nat])
  have over: "\<not> (of_nat (64 + ?L * 8) :: uint64) > of_nat ?n"
    by (rule uint64_of_nat_not_less) (use L8 small in simp_all)
  have mk1: "make_bytes (?L * 8) = Inr (replicate (?L * 8) 0)"
    and mk2: "make_bytes ?L = Inr (replicate ?L 0)"
    using L8 nmax by (simp_all add: make_bytes_def maxAlloc_def)
  \<comment> \<open>the body\<close>
  have db: "collect (\<lambda>i. lsb_at (map Red (Pix img)) spc (i + 64)) [0..<?L * 8]
              = Inr (map (\<lambda>i. bit_at (i + 64)) [0..<?L * 8])"
    using collect_lsb_at [of 64 "?L * 8" spc "map Red (Pix img)"] inr L8 ls
    by (simp add: bit_at_def add.commute)
  have dbyte: "byte_of_bits (map (\<lambda>i. bit_at (i + 64)) [0..<?L * 8]) i = dataBytes ! i"
    if "i < ?L" for i
  proof -
    have "byte_of_bits (map (\<lambda>i. bit_at (i + 64)) [0..<?L * 8]) i = ?full ! (8 + i)"
    proof (rule byte_of_bits_message)
      fix j :: nat assume j: "j < 8"
      then have lt: "i * 8 + j < ?L * 8" using that by simp
      then have "i * 8 + j + 64 < (8 + ?L) * 8" by simp
      from b [OF this] lt
      show "map (\<lambda>i. bit_at (i + 64)) [0..<?L * 8] ! (i * 8 + j)
              = message_bit ?full ((8 + i) * 8 + j)"
        by (simp add: algebra_simps)
    qed
    then show ?thesis by (simp add: nth_append length_PutUint64)
  qed
  have data: "map (byte_of_bits (map (\<lambda>i. bit_at (i + 64)) [0..<?L * 8])) [0..<?L] = dataBytes"
    by (rule nth_equalityI) (simp_all add: dbyte)
  have btb: "bits_to_bytes (map (\<lambda>i. bit_at (i + 64)) [0..<?L * 8]) ?L = Inr dataBytes"
    by (simp add: bits_to_bytes_def data)
  have "AdvancedDecode rnd srt (Some (img, format)) =
     (if (of_nat ?L :: uint64) = 0 \<or> 64 + (of_nat ?L :: uint64) * 8 > of_nat ?n
      then Inl CorruptHeader
      else
        (case make_bytes (unat ((of_nat ?L :: uint64) * 8)) of
           Inl e \<Rightarrow> Inl e
         | Inr zeros \<Rightarrow>
        (case collect (\<lambda>i. lsb_at (map Red (Pix img)) spc (i + 64))
                [0..<unat ((of_nat ?L :: uint64) * 8)] of
           Inl e \<Rightarrow> Inl e
         | Inr dataBits \<Rightarrow>
        (case make_bytes (unat (of_nat ?L :: uint64)) of
           Inl e \<Rightarrow> Inl e
         | Inr zeros' \<Rightarrow> bits_to_bytes dataBits (unat (of_nat ?L :: uint64))))))"
    using AdvancedDecode_steps [OF wf p cm len n64, of format]
    by (simp only: ml flip: spc_def bit_at_def)
  also have "\<dots> = (if ?L = 0 then Inl CorruptHeader else Inr dataBytes)"
    unfolding tdb tb
    by (simp only: zero over uint64_of_nat [OF small(1)] uint64_of_nat [OF small(2)])
      (simp add: mk1 mk2 db btb)
  finally show ?thesis .
qed

section \<open>Encoding, then decoding\<close>

lemma decode_encoded_eq:
  assumes wf: "wf_image img" and op: "Opaque img" and p: "sort_permutes srt"
    and f: "format = ''png'' \<or> format = ''jpeg''"
    and cap: "64 + 8 * length dataBytes \<le> Dx img * Dy img"
  shows "decode_encoded rnd srt (Some (img, format)) (Some dataBytes) rs
           = (if length dataBytes = 0 then Inl CorruptHeader else Inr dataBytes)"
proof -
  let ?n = "Dx img * Dy img"
  have cap': "(8 + length dataBytes) * 8 \<le> ?n" using cap by simp
  from AdvancedEncode_ok [OF wf p cap', of rnd format rs]
  obtain cm r' where cm: "CalculateCosts rnd img 1 = Inr cm"
    and len: "length (costs cm) = ?n" and lr: "length r' = ?n"
    and enc: "AdvancedEncode rnd srt (Some (img, format)) (Some dataBytes) rs
                = (if format = ''png'' \<or> format = ''jpeg''
                   then Inr (png_Encode \<lparr>Dx = Dx img, Dy = Dy img,
                             Pix = map (\<lambda>i. (Pix img ! i)\<lparr>Red := r' ! i\<rparr>) [0..<?n]\<rparr>)
                   else Inl UnsupportedFormat)"
    and bits: "\<forall>k < (8 + length dataBytes) * 8.
                  r' ! pos (srt cost_less
                             (map (\<lambda>i. \<lparr>pos = i, cost = costs cm ! i\<rparr>) [0..<?n]) ! k)
                    AND 1
                  = message_bit (PutUint64 (of_nat (length dataBytes)) @ dataBytes) k"
    by blast
  define stego where "stego = \<lparr>Dx = Dx img, Dy = Dy img,
                      Pix = map (\<lambda>i. (Pix img ! i)\<lparr>Red := r' ! i\<rparr>) [0..<?n]\<rparr>"
  have e: "AdvancedEncode rnd srt (Some (img, format)) (Some dataBytes) rs
             = Inr (png_Encode stego)"
    using enc f by (simp add: stego_def)
  have wfs: "wf_image stego" and red: "map Red (Pix stego) = r'"
    and cs: "CalculateCosts rnd stego 1 = CalculateCosts rnd img 1"
    unfolding stego_def by (rule stego_facts [OF wf lr])+
  have "Opaque stego"
    unfolding stego_def by (rule stego_facts(4) [OF wf lr op])
  then have g: "getImageAsRGBA (png_Encode stego) = Some (stego, ''png'')"
    by (rule getImageAsRGBA_png_Encode)
  have d: "Dx stego * Dy stego = ?n" by (simp add: stego_def)
  have "AdvancedDecode rnd srt (Some (stego, ''png''))
          = (if length dataBytes = 0 then Inl CorruptHeader else Inr dataBytes)"
    by (rule AdvancedDecode_frame [OF wfs p, of rnd cm])
      (use cm cs len cap' bits in \<open>simp_all add: d red\<close>)
  then show ?thesis by (simp add: decode_encoded_def e g)
qed

text \<open>
  C1 (amended). For every opaque raster as the decoders deliver it, PNG or JPEG, with
  \<open>W * H \<ge> 64 + 8 L\<close>, every payload of length \<open>L \<ge> 1\<close>, every library sort that
  permutes, every rounding and every random source, decoding the PNG that encoding
  writes returns the payload; for the empty payload it fails with the corrupt-header
  error.
\<close>

theorem decode_encoded_payload:
  "wf_image img \<Longrightarrow> Opaque img \<Longrightarrow> sort_permutes srt \<Longrightarrow>
   format = ''png'' \<or> format = ''jpeg'' \<Longrightarrow>
   64 + 8 * length dataBytes \<le> Dx img * Dy img \<Longrightarrow>
     decode_encoded rnd srt (Some (img, format)) (Some dataBytes) rs
       = (if 1 \<le> length dataBytes then Inr dataBytes else Inl CorruptHeader)"
  by (cases dataBytes) (simp_all add: decode_encoded_eq)

theorem decode_encoded_payload_witness:
  "wf_image black_strip \<and> Opaque black_strip \<and> sort_permutes insertion_sort
   \<and> 64 + 8 * length [65 :: byte] \<le> Dx black_strip * Dy black_strip
   \<and> decode_encoded exact insertion_sort (Some (black_strip, ''png'')) (Some [65]) ones_source
        = Inr [65]"
proof -
  have c: "64 + 8 * length [65 :: byte] \<le> Dx black_strip * Dy black_strip"
    by (simp add: black_strip_def)
  from decode_encoded_payload
    [OF wf_black_strip Opaque_black_strip sort_permutes_insertion_sort _ c,
      of "''png''" exact ones_source]
  show ?thesis
    using wf_black_strip Opaque_black_strip sort_permutes_insertion_sort c by simp
qed

text \<open>
  C1 as stated fails for the empty payload: the opaque raster of 72 pixels has room for
  its frame of 64 bits, encoding succeeds, and decoding the result is refused with the
  corrupt-header error, since the decoder rejects the length 0.
\<close>

theorem decode_encoded_empty_payload:
  "64 + 8 * length ([] :: byte list) \<le> Dx black_strip * Dy black_strip
   \<and> \<not> isl (AdvancedEncode exact insertion_sort (Some (black_strip, ''png'')) (Some [])
               ones_source)
   \<and> decode_encoded exact insertion_sort (Some (black_strip, ''png'')) (Some []) ones_source
        = Inl CorruptHeader"
proof -
  have c: "64 + 8 * length ([] :: byte list) \<le> Dx black_strip * Dy black_strip"
    by (simp add: black_strip_def)
  then have "(8 + length ([] :: byte list)) * 8 \<le> Dx black_strip * Dy black_strip"
    by simp
  from AdvancedEncode_ok [OF wf_black_strip sort_permutes_insertion_sort this,
      of exact "''png''" ones_source]
  have "\<not> isl (AdvancedEncode exact insertion_sort (Some (black_strip, ''png'')) (Some [])
               ones_source)"
    by auto
  moreover from decode_encoded_eq
    [OF wf_black_strip Opaque_black_strip sort_permutes_insertion_sort _ c,
      of "''png''" exact ones_source]
  have "decode_encoded exact insertion_sort (Some (black_strip, ''png'')) (Some []) ones_source
        = Inl CorruptHeader"
    by simp
  ultimately show ?thesis using c by simp
qed

text \<open>
  On a raster of at least 64 pixels whose Red values are all even, the 64 header bits are
  all 0, the length read is 0, and the decoder refuses it.
\<close>

lemma AdvancedDecode_even_red:
  fixes srt :: sort_Slice
  assumes wf: "wf_image img" and p: "sort_permutes srt" and n: "64 \<le> Dx img * Dy img"
    and even: "\<forall>c\<in>set (Pix img). Red c AND 1 = 0"
  shows "AdvancedDecode rnd srt (Some (img, format)) = Inl CorruptHeader"
proof -
  let ?n = "Dx img * Dy img"
  from CalculateCosts_costs [OF wf, of rnd 1]
  obtain cm where cm: "CalculateCosts rnd img 1 = Inr cm" and len: "length (costs cm) = ?n"
    by blast
  define spc where "spc = srt cost_less (map (\<lambda>i. \<lparr>pos = i, cost = costs cm ! i\<rparr>) [0..<?n])"
  define bit_at where "bit_at = (\<lambda>k. map Red (Pix img) ! pos (spc ! k) AND 1)"
  have ls: "length spc = ?n" and st: "set (map pos spc) = {0..<?n}"
    unfolding spc_def by (rule sorted_positions [OF p])+
  have lp: "length (Pix img) = ?n" using wf by (simp add: wf_image_def)
  have b: "bit_at k = 0" if "k < 64" for k
  proof -
    have "k < length spc" using that n ls by simp
    then have "pos (spc ! k) \<in> set (map pos spc)" by (metis length_map nth_map nth_mem)
    then have "pos (spc ! k) < length (Pix img)" using st lp by simp
    then show ?thesis using even by (simp add: bit_at_def)
  qed
  have hbits: "map bit_at [0..<64] = map (\<lambda>k. 0) [0..<64]"
    by (rule map_cong) (simp_all add: b)
  have hbyte: "byte_of_bits (map (\<lambda>k. 0) [0..<64]) i = 0" if "i < 8" for i
    using that by (simp add: byte_of_bits_def upt_8)
  have header: "map (byte_of_bits (map bit_at [0..<64])) [0..<8] = map (\<lambda>i. 0) [0..<8]"
    by (rule map_cong) (simp_all add: hbits hbyte)
  have z: "Uint64 (map (\<lambda>i. 0) [0..<8]) = 0"
    by (simp add: Uint64_def)
  have ml: "Uint64 (map (byte_of_bits (map bit_at [0..<64])) [0..<8]) = 0"
    by (simp only: header z)
  show ?thesis
    using AdvancedDecode_steps [OF wf p cm len n, of format]
    by (simp only: ml flip: spc_def bit_at_def) simp
qed

lemma wf_transparent_strip: "wf_image transparent_strip"
  by (simp add: wf_image_def transparent_strip_def maxAlloc_def)

text \<open>
  On a carrier that is not opaque the payload may be lost: the PNG written for the
  transparent strip holds no colour at all, and decoding it reads the length 0.
\<close>

lemma decode_encoded_transparent:
  "\<not> isl (AdvancedEncode exact insertion_sort (Some (transparent_strip, ''png'')) (Some [65])
             failing_source)
   \<and> decode_encoded exact insertion_sort (Some (transparent_strip, ''png'')) (Some [65])
        failing_source = Inl CorruptHeader"
proof -
  let ?z = "\<lparr>Red = 0, Green = 0, Blue = 0, Alpha = 0\<rparr>"
  have "(8 + length [65 :: byte]) * 8 \<le> Dx transparent_strip * Dy transparent_strip"
    by (simp add: transparent_strip_def)
  from AdvancedEncode_ok [OF wf_transparent_strip sort_permutes_insertion_sort this,
      of exact "''png''" failing_source]
  obtain r' where
    e0: "AdvancedEncode exact insertion_sort (Some (transparent_strip, ''png'')) (Some [65])
          failing_source
          = Inr (png_Encode \<lparr>Dx = Dx transparent_strip, Dy = Dy transparent_strip,
                  Pix = map (\<lambda>i. (Pix transparent_strip ! i)\<lparr>Red := r' ! i\<rparr>)
                          [0..<Dx transparent_strip * Dy transparent_strip]\<rparr>)"
    by auto
  have d: "Dx transparent_strip = 72" "Dy transparent_strip = 1"
    "Dx transparent_strip * Dy transparent_strip = 72"
    by (simp_all add: transparent_strip_def)
  have pm: "map (\<lambda>i. (Pix transparent_strip ! i)\<lparr>Red := r' ! i\<rparr>) [0..<72]
              = map (\<lambda>i. \<lparr>Red = r' ! i, Green = 0, Blue = 0, Alpha = 0\<rparr>) [0..<72]"
    by (rule map_cong) (simp_all add: transparent_strip_def)
  let ?raster = "\<lparr>Dx = 72, Dy = 1,
                  Pix = map (\<lambda>i. \<lparr>Red = r' ! i, Green = 0, Blue = 0, Alpha = 0\<rparr>) [0..<72]\<rparr>"
  have e: "AdvancedEncode exact insertion_sort (Some (transparent_strip, ''png'')) (Some [65])
          failing_source = Inr (png_Encode ?raster)"
    using e0 pm by (simp add: d)
  have n: "\<not> Opaque ?raster"
    by (simp add: Opaque_def list_all_iff) (rule exI [of _ 0], simp)
  have w: "png_Encode ?raster = TrueColorAlpha 72 1 (map (\<lambda>i. (0, 0, 0, 0)) [0..<72])"
    using n by (simp add: png_Encode_def nrgba_def comp_def)
  have g: "getImageAsRGBA (TrueColorAlpha 72 1 (map (\<lambda>i. (0, 0, 0, 0)) [0..<72]))
            = Some (transparent_strip, ''png'')"
    by (simp add: getImageAsRGBA_def rgba_def premultiply_def comp_def transparent_strip_def
        map_replicate_const)
  have "AdvancedDecode exact insertion_sort (Some (transparent_strip, ''png''))
          = Inl CorruptHeader"
    by (rule AdvancedDecode_even_red [OF wf_transparent_strip sort_permutes_insertion_sort])
      (simp_all add: transparent_strip_def)
  then have "decode_encoded exact insertion_sort (Some (transparent_strip, ''png''))
               (Some [65]) failing_source = Inl CorruptHeader"
    unfolding decode_encoded_def e by (simp only: sum.case w g)
  then show ?thesis by (simp only: e) simp
qed

section \<open>A header that overflows the length check\<close>

lemma message_bit_ones:
  assumes "k < 64"
  shows "message_bit (replicate 8 255) k = 1"
proof -
  have "k div 8 < 8" using assms by simp
  moreover have "drop_bit (7 - j) (255 :: byte) AND 1 = 1" if "j < 8" for j
    using that by (cases j rule: less_8_cases) simp_all
  ultimately show ?thesis by (simp add: message_bit_def)
qed

lemma Uint64_ones: "Uint64 (map (\<lambda>i. 255) [0..<8]) = 18446744073709551615"
  by (simp add: Uint64_def)

text \<open>
  On a raster of at least 64 pixels whose Red values are all odd, the 64 header bits are
  all 1, the length read is \<open>2^64 - 1\<close>, the products and sums of step 8 wrap around to
  \<open>2^64 - 8\<close> and 56, the check passes, and \<open>make\<close> panics.
\<close>

lemma AdvancedDecode_odd_red:
  fixes srt :: sort_Slice
  assumes wf: "wf_image img" and p: "sort_permutes srt" and n: "64 \<le> Dx img * Dy img"
    and odd: "\<forall>c\<in>set (Pix img). Red c AND 1 = 1"
  shows "AdvancedDecode rnd srt (Some (img, format)) = Inl Panic"
proof -
  let ?n = "Dx img * Dy img"
  from CalculateCosts_costs [OF wf, of rnd 1]
  obtain cm where cm: "CalculateCosts rnd img 1 = Inr cm" and len: "length (costs cm) = ?n"
    by blast
  define spc where "spc = srt cost_less (map (\<lambda>i. \<lparr>pos = i, cost = costs cm ! i\<rparr>) [0..<?n])"
  define bit_at where "bit_at = (\<lambda>k. map Red (Pix img) ! pos (spc ! k) AND 1)"
  have ls: "length spc = ?n" and st: "set (map pos spc) = {0..<?n}"
    unfolding spc_def by (rule sorted_positions [OF p])+
  have lp: "length (Pix img) = ?n" using wf by (simp add: wf_image_def)
  have b: "bit_at k = 1" if "k < 64" for k
  proof -
    have "k < length spc" using that n ls by simp
    then have "pos (spc ! k) \<in> set (map pos spc)" by (metis length_map nth_map nth_mem)
    then have "pos (spc ! k) < length (Pix img)" using st lp by simp
    then show ?thesis using odd by (simp add: bit_at_def)
  qed
  have hbits: "map bit_at [0..<64] = map (message_bit (replicate 8 255)) [0..<64]"
    by (rule map_cong) (simp_all add: b message_bit_ones)
  have hbyte: "byte_of_bits (map (message_bit (replicate 8 255)) [0..<64]) i = 255"
    if "i < 8" for i
  proof -
    have "byte_of_bits (map (message_bit (replicate 8 255)) [0..<64]) i
            = replicate 8 255 ! (0 + i)"
    proof (rule byte_of_bits_message)
      fix j :: nat assume "j < 8"
      then have "i * 8 + j < 64" using that by simp
      then show "map (message_bit (replicate 8 255)) [0..<64] ! (i * 8 + j)
                   = message_bit (replicate 8 255) ((0 + i) * 8 + j)"
        by simp
    qed
    then show ?thesis using that by simp
  qed
  have header: "map (byte_of_bits (map bit_at [0..<64])) [0..<8] = map (\<lambda>i. 255) [0..<8]"
    by (rule map_cong) (simp_all add: hbits hbyte)
  have ml: "Uint64 (map (byte_of_bits (map bit_at [0..<64])) [0..<8]) = 18446744073709551615"
    by (simp only: header Uint64_ones)
  have nmax: "?n < 2 ^ 64" using wf by (simp add: wf_image_def maxAlloc_def)
  have tdb: "(18446744073709551615 :: uint64) * 8 = 18446744073709551608" by simp
  have tb: "(64 :: uint64) + 18446744073709551608 = 56" by simp
  have "\<not> (of_nat 56 :: uint64) > of_nat ?n"
    by (rule uint64_of_nat_not_less) (use n nmax in simp_all)
  then have chk: "\<not> (56 :: uint64) > of_nat ?n" by simp
  have mk: "make_bytes (unat (18446744073709551608 :: uint64)) = Inl Panic"
    by (simp add: make_bytes_def maxAlloc_def)
  have "AdvancedDecode rnd srt (Some (img, format)) =
     (if (18446744073709551615 :: uint64) = 0
          \<or> 64 + (18446744073709551615 :: uint64) * 8 > of_nat ?n
      then Inl CorruptHeader
      else
        (case make_bytes (unat ((18446744073709551615 :: uint64) * 8)) of
           Inl e \<Rightarrow> Inl e
         | Inr zeros \<Rightarrow>
        (case collect (\<lambda>i. lsb_at (map Red (Pix img)) spc (i + 64))
                [0..<unat ((18446744073709551615 :: uint64) * 8)] of
           Inl e \<Rightarrow> Inl e
         | Inr dataBits \<Rightarrow>
        (case make_bytes (unat (18446744073709551615 :: uint64)) of
           Inl e \<Rightarrow> Inl e
         | Inr zeros' \<Rightarrow> bits_to_bytes dataBits (unat (18446744073709551615 :: uint64))))))"
    using AdvancedDecode_steps [OF wf p cm len n, of format]
    by (simp only: ml flip: spc_def bit_at_def)
  also have "\<dots> = Inl Panic"
    unfolding tdb tb by (simp only: chk mk) simp
  finally show ?thesis .
qed

lemma wf_white_square: "wf_image white_square"
  by (simp add: wf_image_def white_square_def maxAlloc_def)

text \<open>
  C6. The decoder is to fail with the corrupt-header error exactly when the length \<open>L\<close>
  of the header is 0 or \<open>8 * (8 + L) > W * H\<close> in exact arithmetic. On the white square
  of 8 by 8 pixels the header is \<open>L = 2^64 - 1\<close>, far beyond the 64 pixels, and the
  decoder does not return the error: it panics.
\<close>

theorem AdvancedDecode_white_square:
  "AdvancedDecode exact insertion_sort (Some (white_square, ''png'')) = Inl Panic"
  by (rule AdvancedDecode_odd_red [OF wf_white_square sort_permutes_insertion_sort])
    (simp_all add: white_square_def)

end
